theory Spec2Isabelle
  imports Complex_Main
begin

section \<open>Data model (atoms.ts)\<close>

text \<open>
  A JavaScript value held by an atom. \<open>Undefined\<close> is what \<^verbatim>\<open>Map.get\<close> returns
  for an absent key; every other value is \<open>Val v\<close> for a value \<open>v\<close> of the type
  parameter.
\<close>

datatype 'v jsval = Undefined | Val 'v

text \<open>
  The only error the engine throws itself is
  \<^verbatim>\<open>new Error('Cannot set read-only derived atom')\<close>; a read function or a write
  handler supplied by the user may throw an error of its own.
\<close>

datatype error = CannotSetReadOnlyDerivedAtom | UserError string

text \<open>
  \<^verbatim>\<open>ReadFn = (get: Get) => TValue\<close>. A read function can interact with the engine
  only through the \<^verbatim>\<open>get\<close> it is handed, so it is represented by what it does
  with it: it returns a value, throws, or calls \<^verbatim>\<open>get(atom)\<close> and carries on,
  with the value returned (first continuation) or with the error thrown if it catches it
  (second continuation; a function that does not catch has \<open>Throw\<close> there).
  Atoms are compared by reference: \<open>'a\<close> is the type of references to atom objects.
\<close>

datatype ('a, 'v) readfn =
    Return "'v jsval"
  | Throw error
  | Get 'a "'v jsval \<Rightarrow> ('a, 'v) readfn" "error \<Rightarrow> ('a, 'v) readfn"

text \<open>
  \<^verbatim>\<open>WriteFn = (get: Get, set: Set, newValue: TValue) => void\<close>, applied to its
  \<^verbatim>\<open>newValue\<close>: the body may in addition call \<^verbatim>\<open>set(atom, value)\<close>.
\<close>

datatype ('a, 'v) writefn =
    Done
  | WThrow error
  | WGet 'a "'v jsval \<Rightarrow> ('a, 'v) writefn" "error \<Rightarrow> ('a, 'v) writefn"
  | WSet 'a "'v jsval" "('a, 'v) writefn"

text \<open>
  \<^verbatim>\<open>Atom<TValue> = PrimitiveAtom<TValue> | DerivedAtom<TValue>\<close>: the tag
  \<^verbatim>\<open>type\<close> is the constructor, \<^verbatim>\<open>write?\<close> is an optional field.
\<close>

datatype ('a, 'v) atom =
    is_primitive: Primitive (brand: "'v jsval")
  | is_derived: Derived (atom_read: "('a, 'v) readfn")
            (atom_write: "('v jsval \<Rightarrow> ('a, 'v) writefn) option")

text \<open>
  The module-level variables of atoms.ts and useAtom.ts. A JavaScript \<^verbatim>\<open>Set\<close>
  iterates in insertion order, so a set is a list without duplicates, in insertion order.
  Subscription callbacks belong to the binding layer: they are identified by a reference
  of type \<open>'c\<close>, and calling one is recorded, in order, in \<open>fired\<close> (which the source
  does not have; it is the trace of the calls \<^verbatim>\<open>subscription()\<close>). A callback is
  taken to return, without an error and without calling back into the engine.
\<close>

record ('a, 'c, 'v) engine =
  atomPrimitiveValues :: "'a \<rightharpoonup> 'v jsval"
  currentlyComputingAtom :: "'a option"
  subscriptions :: "'a \<rightharpoonup> 'c list"
  dependencies :: "'a \<rightharpoonup> 'a list"
  fired :: "'c list"

definition initial :: "('a, 'c, 'v) engine" where
  "initial = \<lparr> atomPrimitiveValues = Map.empty, currentlyComputingAtom = None,
               subscriptions = Map.empty, dependencies = Map.empty, fired = [] \<rparr>"

text \<open>\<^verbatim>\<open>Set.prototype.add\<close> and \<^verbatim>\<open>Set.prototype.delete\<close>.\<close>

definition set_add :: "'x \<Rightarrow> 'x list \<Rightarrow> 'x list" where
  "set_add x xs = (if x \<in> set xs then xs else xs @ [x])"

definition set_delete :: "'x \<Rightarrow> 'x list \<Rightarrow> 'x list" where
  "set_delete x xs = removeAll x xs"

text \<open>
  \<^verbatim>\<open>atom(configOrRead, write?)\<close>: \<open>ConfigRead\<close> is the case
  \<^verbatim>\<open>typeof configOrRead === 'function'\<close>. The function returns the new object and
  the state; \<open>ref\<close> is the reference of the object it allocates.
\<close>

datatype ('a, 'v) config = ConfigValue "'v jsval" | ConfigRead "('a, 'v) readfn"

definition atom ::
  "('a, 'v) config \<Rightarrow> ('v jsval \<Rightarrow> ('a, 'v) writefn) option \<Rightarrow> 'a \<Rightarrow> ('a, 'c, 'v) engine
     \<Rightarrow> ('a, 'v) atom \<times> ('a, 'c, 'v) engine" where
  "atom configOrRead wr ref st =
     (case configOrRead of
        ConfigRead rd \<Rightarrow> (Derived rd wr, st)
      | ConfigValue v \<Rightarrow>
          (Primitive v, st\<lparr>atomPrimitiveValues := (atomPrimitiveValues st)(ref \<mapsto> v)\<rparr>))"

section \<open>Reading (useAtom.ts: get, getAtomValue)\<close>

text \<open>
  Lines 40 to 48 of \<^verbatim>\<open>get\<close>: when an atom is being computed, it is added to the
  set of dependents of \<open>a\<close>, which is created when absent.
\<close>

definition track :: "'a \<Rightarrow> ('a, 'c, 'v) engine \<Rightarrow> ('a, 'c, 'v) engine" where
  "track a st =
     (case currentlyComputingAtom st of
        None \<Rightarrow> st
      | Some c \<Rightarrow>
          st\<lparr>dependencies := (dependencies st)
                (a \<mapsto> set_add c (case dependencies st a of None \<Rightarrow> [] | Some ds \<Rightarrow> ds))\<rparr>)"

text \<open>
  An atom object never changes after its construction: \<open>defs\<close> gives the object behind
  each reference. A read function may read an atom that reads it back, and then the
  source recurses until the stack is exhausted; the model counts calls down from a bound
  and answers \<open>None\<close> when the bound is reached. A result \<open>Some (st, Inl e)\<close> is the
  state left behind by a call that threw \<open>e\<close>.
\<close>

fun get :: "nat \<Rightarrow> ('a \<Rightarrow> ('a, 'v) atom) \<Rightarrow> 'a \<Rightarrow> ('a, 'c, 'v) engine
              \<Rightarrow> (('a, 'c, 'v) engine \<times> (error + 'v jsval)) option"
and getAtomValue :: "nat \<Rightarrow> ('a \<Rightarrow> ('a, 'v) atom) \<Rightarrow> 'a \<Rightarrow> ('a, 'c, 'v) engine
              \<Rightarrow> (('a, 'c, 'v) engine \<times> (error + 'v jsval)) option"
and call_read :: "nat \<Rightarrow> ('a \<Rightarrow> ('a, 'v) atom) \<Rightarrow> ('a, 'v) readfn \<Rightarrow> ('a, 'c, 'v) engine
              \<Rightarrow> (('a, 'c, 'v) engine \<times> (error + 'v jsval)) option"
where
  "get n defs a st = getAtomValue n defs a (track a st)"
| "getAtomValue 0 defs a st =
     (case defs a of
        Primitive _ \<Rightarrow>
          Some (st, Inr (case atomPrimitiveValues st a of None \<Rightarrow> Undefined | Some v \<Rightarrow> v))
      | Derived _ _ \<Rightarrow> None)"
| "getAtomValue (Suc n) defs a st =
     (case defs a of
        Primitive _ \<Rightarrow>
          Some (st, Inr (case atomPrimitiveValues st a of None \<Rightarrow> Undefined | Some v \<Rightarrow> v))
      | Derived rd _ \<Rightarrow>
          (case call_read n defs rd (st\<lparr>currentlyComputingAtom := Some a\<rparr>) of
             None \<Rightarrow> None
           | Some (st', r) \<Rightarrow>
               Some (st'\<lparr>currentlyComputingAtom := currentlyComputingAtom st\<rparr>, r)))"
| "call_read n defs (Return v) st = Some (st, Inr v)"
| "call_read n defs (Throw e) st = Some (st, Inl e)"
| "call_read 0 defs (Get a k h) st = None"
| "call_read (Suc n) defs (Get a k h) st =
     (case get n defs a st of
        None \<Rightarrow> None
      | Some (st', Inr v) \<Rightarrow> call_read n defs (k v) st'
      | Some (st', Inl e) \<Rightarrow> call_read n defs (h e) st')"

text \<open>
  \<^verbatim>\<open>getSnapshot\<close> of \<^verbatim>\<open>useAtom\<close>, the untracked read handed to the binding
  layer: it calls \<^verbatim>\<open>getAtomValue\<close>, not \<^verbatim>\<open>get\<close>.
\<close>

definition getSnapshot :: "nat \<Rightarrow> ('a \<Rightarrow> ('a, 'v) atom) \<Rightarrow> 'a \<Rightarrow> ('a, 'c, 'v) engine
              \<Rightarrow> (('a, 'c, 'v) engine \<times> (error + 'v jsval)) option" where
  "getSnapshot n defs a st = getAtomValue n defs a st"

section \<open>Writing (useAtom.ts: updateAtom, updatePrimitiveAtom, updateReadonlyDerivedAtom)\<close>

text \<open>\<^verbatim>\<open>subscriptions.get(atom)?.forEach((subscription) => subscription())\<close>\<close>

definition notify :: "'a \<Rightarrow> ('a, 'c, 'v) engine \<Rightarrow> ('a, 'c, 'v) engine" where
  "notify a st =
     (case subscriptions st a of
        None \<Rightarrow> st
      | Some cbs \<Rightarrow> st\<lparr>fired := fired st @ cbs\<rparr>)"

text \<open>
  \<^verbatim>\<open>updateReadonlyDerivedAtom\<close> calls itself for each dependent; the graph may have
  a cycle (the edges of a read that never ended stay), so the calls are counted down
  as for the reads. \<open>forEach_dependent\<close> is the loop
  \<^verbatim>\<open>dependentAtoms.forEach(...)\<close>.
\<close>

fun updateReadonlyDerivedAtom :: "nat \<Rightarrow> 'a \<Rightarrow> ('a, 'c, 'v) engine \<Rightarrow> ('a, 'c, 'v) engine option"
and forEach_dependent :: "nat \<Rightarrow> 'a list \<Rightarrow> ('a, 'c, 'v) engine \<Rightarrow> ('a, 'c, 'v) engine option"
where
  "updateReadonlyDerivedAtom 0 a st = None"
| "updateReadonlyDerivedAtom (Suc n) a st =
     (let st1 = notify a st in
      case dependencies st1 a of
        None \<Rightarrow> Some st1
      | Some dependentAtoms \<Rightarrow> forEach_dependent n dependentAtoms st1)"
| "forEach_dependent n [] st = Some st"
| "forEach_dependent n (dependentAtom # rest) st =
     (case updateReadonlyDerivedAtom n dependentAtom st of
        None \<Rightarrow> None
      | Some st' \<Rightarrow> forEach_dependent n rest st')"

definition updatePrimitiveAtom ::
  "nat \<Rightarrow> 'a \<Rightarrow> 'v jsval \<Rightarrow> ('a, 'c, 'v) engine \<Rightarrow> ('a, 'c, 'v) engine option" where
  "updatePrimitiveAtom n a newValue st =
     (let st1 = st\<lparr>atomPrimitiveValues := (atomPrimitiveValues st)(a \<mapsto> newValue)\<rparr>;
          st2 = notify a st1 in
      case dependencies st2 a of
        None \<Rightarrow> Some st2
      | Some dependentAtoms \<Rightarrow> forEach_dependent n dependentAtoms st2)"

definition updateAtom ::
  "nat \<Rightarrow> ('a \<Rightarrow> ('a, 'v) atom) \<Rightarrow> 'a \<Rightarrow> 'v jsval \<Rightarrow> ('a, 'c, 'v) engine
     \<Rightarrow> ('a, 'c, 'v) engine option" where
  "updateAtom n defs a newValue st =
     (case defs a of
        Primitive _ \<Rightarrow> updatePrimitiveAtom n a newValue st
      | Derived _ _ \<Rightarrow> updateReadonlyDerivedAtom n a st)"

text \<open>
  \<^verbatim>\<open>atom.write(get, updateAtom, newValue)\<close>: running the body of a write handler
  with the engine's \<^verbatim>\<open>get\<close> and \<^verbatim>\<open>updateAtom\<close>.
\<close>

fun call_write :: "nat \<Rightarrow> ('a \<Rightarrow> ('a, 'v) atom) \<Rightarrow> ('a, 'v) writefn \<Rightarrow> ('a, 'c, 'v) engine
              \<Rightarrow> (('a, 'c, 'v) engine \<times> (error + unit)) option" where
  "call_write n defs Done st = Some (st, Inr ())"
| "call_write n defs (WThrow e) st = Some (st, Inl e)"
| "call_write 0 defs (WGet a k h) st = None"
| "call_write (Suc n) defs (WGet a k h) st =
     (case get n defs a st of
        None \<Rightarrow> None
      | Some (st', Inr v) \<Rightarrow> call_write n defs (k v) st'
      | Some (st', Inl e) \<Rightarrow> call_write n defs (h e) st')"
| "call_write 0 defs (WSet a v k) st = None"
| "call_write (Suc n) defs (WSet a v k) st =
     (case updateAtom n defs a v st of
        None \<Rightarrow> None
      | Some st' \<Rightarrow> call_write n defs k st')"

text \<open>
  The argument of \<^verbatim>\<open>setValue\<close>: \<^verbatim>\<open>TValue | SetValueFn<TValue>\<close>, told apart by
  \<^verbatim>\<open>typeof nextValue === 'function'\<close>. An updater is a function of the previous
  value and nothing else.
\<close>

datatype 'v nextValue = NewValue "'v jsval" | SetValueFn "'v jsval \<Rightarrow> 'v jsval"

definition setValue ::
  "nat \<Rightarrow> ('a \<Rightarrow> ('a, 'v) atom) \<Rightarrow> 'a \<Rightarrow> 'v nextValue \<Rightarrow> ('a, 'c, 'v) engine
     \<Rightarrow> (('a, 'c, 'v) engine \<times> (error + unit)) option" where
  "setValue n defs a nextValue st =
     (case (case nextValue of
              SetValueFn f \<Rightarrow>
                (case getAtomValue n defs a st of
                   None \<Rightarrow> None
                 | Some (st1, Inl e) \<Rightarrow> Some (st1, Inl e)
                 | Some (st1, Inr prev) \<Rightarrow> Some (st1, Inr (f prev)))
            | NewValue v \<Rightarrow> Some (st, Inr v)) of
        None \<Rightarrow> None
      | Some (st1, Inl e) \<Rightarrow> Some (st1, Inl e)
      | Some (st1, Inr newValue) \<Rightarrow>
          (case defs a of
             Derived _ (Some wr) \<Rightarrow> call_write n defs (wr newValue) st1
           | Primitive _ \<Rightarrow>
               (case updateAtom n defs a newValue st1 of
                  None \<Rightarrow> None
                | Some st2 \<Rightarrow> Some (st2, Inr ()))
           | Derived _ None \<Rightarrow> Some (st1, Inl CannotSetReadOnlyDerivedAtom)))"

section \<open>Subscribing (useAtom.ts: subscribe and the cleanup function it returns)\<close>

definition subscribe :: "'a \<Rightarrow> 'c \<Rightarrow> ('a, 'c, 'v) engine \<Rightarrow> ('a, 'c, 'v) engine" where
  "subscribe a callback st =
     st\<lparr>subscriptions := (subscriptions st)
           (a \<mapsto> set_add callback (case subscriptions st a of None \<Rightarrow> [] | Some cbs \<Rightarrow> cbs))\<rparr>"

definition unsubscribe :: "'a \<Rightarrow> 'c \<Rightarrow> ('a, 'c, 'v) engine \<Rightarrow> ('a, 'c, 'v) engine" where
  "unsubscribe a callback st =
     (case subscriptions st a of
        None \<Rightarrow> st
      | Some cbs \<Rightarrow> st\<lparr>subscriptions := (subscriptions st)(a \<mapsto> set_delete callback cbs)\<rparr>)"

section \<open>Reachable states\<close>

text \<open>
  The states the engine can be in: from the initial one, by constructing an atom, reading
  one, writing one, subscribing and unsubscribing. An operation that does not return
  leaves no state behind; one that throws does.
\<close>

inductive reachable :: "('a \<Rightarrow> ('a, 'v) atom) \<Rightarrow> ('a, 'c, 'v) engine \<Rightarrow> bool"
  for defs :: "'a \<Rightarrow> ('a, 'v) atom" where
  r_initial: "reachable defs initial"
| r_atom: "reachable defs st \<Longrightarrow> atom configOrRead wr ref st = (defs ref, st')
             \<Longrightarrow> reachable defs st'"
| r_read: "reachable defs st \<Longrightarrow> getSnapshot n defs a st = Some (st', r)
             \<Longrightarrow> reachable defs st'"
| r_write: "reachable defs st \<Longrightarrow> setValue n defs a nextValue st = Some (st', w)
             \<Longrightarrow> reachable defs st'"
| r_subscribe: "reachable defs st \<Longrightarrow> reachable defs (subscribe a callback st)"
| r_unsubscribe: "reachable defs st \<Longrightarrow> reachable defs (unsubscribe a callback st)"

section \<open>Notions used to state the properties\<close>

text \<open>The dependents of an atom and its callbacks, empty when the map has no entry.\<close>

definition dependents :: "('a, 'c, 'v) engine \<Rightarrow> 'a \<Rightarrow> 'a list" where
  "dependents st a = (case dependencies st a of None \<Rightarrow> [] | Some ds \<Rightarrow> ds)"

definition callbacks :: "('a, 'c, 'v) engine \<Rightarrow> 'a \<Rightarrow> 'c list" where
  "callbacks st a = (case subscriptions st a of None \<Rightarrow> [] | Some cbs \<Rightarrow> cbs)"

text \<open>The atom being computed, if any, is a derived atom.\<close>

definition context_derived :: "('a \<Rightarrow> ('a, 'v) atom) \<Rightarrow> ('a, 'c, 'v) engine \<Rightarrow> bool" where
  "context_derived defs st =
     (case currentlyComputingAtom st of None \<Rightarrow> True | Some c \<Rightarrow> is_derived (defs c))"

text \<open>
  The dependency graph of \<open>st'\<close> has every edge of \<open>st\<close>, and each edge it has in
  addition leads to a derived atom.
\<close>

definition edges_added :: "('a \<Rightarrow> ('a, 'v) atom) \<Rightarrow> ('a, 'c, 'v) engine \<Rightarrow> ('a, 'c, 'v) engine \<Rightarrow> bool" where
  "edges_added defs st st' =
     (\<forall>a. set (dependents st a) \<subseteq> set (dependents st' a) \<and>
          (\<forall>d \<in> set (dependents st' a). d \<in> set (dependents st a) \<or> is_derived (defs d)))"

text \<open>
  The computation context is a derived atom, if any, and so is every dependent in the
  dependency graph.
\<close>

definition graph_derived :: "('a \<Rightarrow> ('a, 'v) atom) \<Rightarrow> ('a, 'c, 'v) engine \<Rightarrow> bool" where
  "graph_derived defs st =
     (context_derived defs st \<and> (\<forall>a. \<forall>d \<in> set (dependents st a). is_derived (defs d)))"

text \<open>
  Recompute-and-notify as the specification words it: the callbacks registered for the
  cell, then, for every cell that depends on it, the same two steps. The result is the
  sequence of callbacks fired; the calls are counted down as in the engine.
\<close>

fun notifications :: "nat \<Rightarrow> ('a \<rightharpoonup> 'c list) \<Rightarrow> ('a \<rightharpoonup> 'a list) \<Rightarrow> 'a \<Rightarrow> 'c list option"
and notifications_each :: "nat \<Rightarrow> ('a \<rightharpoonup> 'c list) \<Rightarrow> ('a \<rightharpoonup> 'a list) \<Rightarrow> 'a list \<Rightarrow> 'c list option"
where
  "notifications 0 subs deps a = None"
| "notifications (Suc n) subs deps a =
     (case notifications_each n subs deps (case deps a of None \<Rightarrow> [] | Some ds \<Rightarrow> ds) of
        None \<Rightarrow> None
      | Some below \<Rightarrow> Some ((case subs a of None \<Rightarrow> [] | Some cbs \<Rightarrow> cbs) @ below))"
| "notifications_each n subs deps [] = Some []"
| "notifications_each n subs deps (d # ds) =
     (case notifications n subs deps d of
        None \<Rightarrow> None
      | Some first \<Rightarrow>
          (case notifications_each n subs deps ds of
             None \<Rightarrow> None
           | Some others \<Rightarrow> Some (first @ others)))"

text \<open>
  The read path as the specification words it (4.2), apart from the state: the value a
  cell resolves to, from the value store alone, together with the tracked reads made on
  the way, in the order they are made. A pair \<open>(x, c)\<close> is a call \<^verbatim>\<open>get(x)\<close> made by the
  read function of the derived cell \<open>c\<close> while \<open>c\<close> is being evaluated. \<open>record_edge x c\<close>
  is the edge from \<open>x\<close> to \<open>c\<close> put into a graph, \<open>recorded\<close> does it for a sequence of
  reads.
\<close>

definition record_edge :: "'a \<Rightarrow> 'a \<Rightarrow> ('a \<rightharpoonup> 'a list) \<Rightarrow> ('a \<rightharpoonup> 'a list)" where
  "record_edge x c deps = deps(x \<mapsto> set_add c (case deps x of None \<Rightarrow> [] | Some ds \<Rightarrow> ds))"

definition recorded :: "('a \<times> 'a) list \<Rightarrow> ('a \<rightharpoonup> 'a list) \<Rightarrow> ('a \<rightharpoonup> 'a list)" where
  "recorded reads deps = fold (\<lambda>(x, c). record_edge x c) reads deps"

fun resolve :: "nat \<Rightarrow> ('a \<Rightarrow> ('a, 'v) atom) \<Rightarrow> ('a \<rightharpoonup> 'v jsval) \<Rightarrow> 'a
                  \<Rightarrow> ((error + 'v jsval) \<times> ('a \<times> 'a) list) option"
and resolve_body :: "nat \<Rightarrow> ('a \<Rightarrow> ('a, 'v) atom) \<Rightarrow> ('a \<rightharpoonup> 'v jsval) \<Rightarrow> 'a \<Rightarrow> ('a, 'v) readfn
                  \<Rightarrow> ((error + 'v jsval) \<times> ('a \<times> 'a) list) option"
where
  "resolve 0 defs vals a =
     (case defs a of
        Primitive _ \<Rightarrow> Some (Inr (case vals a of None \<Rightarrow> Undefined | Some v \<Rightarrow> v), [])
      | Derived _ _ \<Rightarrow> None)"
| "resolve (Suc n) defs vals a =
     (case defs a of
        Primitive _ \<Rightarrow> Some (Inr (case vals a of None \<Rightarrow> Undefined | Some v \<Rightarrow> v), [])
      | Derived rd _ \<Rightarrow> resolve_body n defs vals a rd)"
| "resolve_body n defs vals c (Return v) = Some (Inr v, [])"
| "resolve_body n defs vals c (Throw e) = Some (Inl e, [])"
| "resolve_body 0 defs vals c (Get x k h) = None"
| "resolve_body (Suc n) defs vals c (Get x k h) =
     (case resolve n defs vals x of
        None \<Rightarrow> None
      | Some (r, inside) \<Rightarrow>
          (case resolve_body n defs vals c (case r of Inr v \<Rightarrow> k v | Inl e \<Rightarrow> h e) of
             None \<Rightarrow> None
           | Some (r', after) \<Rightarrow> Some (r', (x, c) # inside @ after)))"

section \<open>The atoms of App.tsx, and a few more\<close>

text \<open>
  \<^verbatim>\<open>countAtom = atom(0)\<close>, \<^verbatim>\<open>countAtom2 = atom(0)\<close>,
  \<^verbatim>\<open>doubledAtom = atom((get) => get(countAtom) * 2)\<close>,
  \<^verbatim>\<open>tripledAtom = atom((get) => get(doubledAtom) * 1.5)\<close> and
  \<^verbatim>\<open>countAtom3WithWrite\<close>, whose handler is
  \<^verbatim>\<open>set(countAtom, get(countAtom) + newValue)\<close>. Added to them:
  \<open>PlusOneAtom\<close> reads \<open>CountAtom\<close> and \<open>SumAtom\<close> reads \<open>DoubledAtom\<close> and
  \<open>PlusOneAtom\<close> (a diamond); \<open>FailingAtom\<close> throws and \<open>ReadsFailingAtom\<close> reads it;
  the handler of \<open>ForwardingAtom\<close> is \<^verbatim>\<open>set(doubledAtom, newValue)\<close>; \<open>SwitchAtom\<close>
  reads \<open>CountAtom\<close> and, when it is not 0, \<open>CountAtom2\<close> too.
\<close>

datatype app_atom =
    CountAtom | DoubledAtom | TripledAtom | CountAtom3WithWrite
  | PlusOneAtom | SumAtom | FailingAtom | ReadsFailingAtom | ForwardingAtom
  | CountAtom2 | SwitchAtom

definition on_number :: "(real \<Rightarrow> real) \<Rightarrow> real jsval \<Rightarrow> real jsval" where
  "on_number f x = (case x of Undefined \<Rightarrow> Undefined | Val i \<Rightarrow> Val (f i))"

definition add_values :: "real jsval \<Rightarrow> real jsval \<Rightarrow> real jsval" where
  "add_values x y = (case (x, y) of (Val i, Val j) \<Rightarrow> Val (i + j) | _ \<Rightarrow> Undefined)"

fun app_atoms :: "app_atom \<Rightarrow> (app_atom, real) atom" where
  "app_atoms CountAtom = Primitive (Val 0)"
| "app_atoms CountAtom2 = Primitive (Val 0)"
| "app_atoms DoubledAtom =
     Derived (Get CountAtom (\<lambda>x. Return (on_number (\<lambda>i. i * 2) x)) Throw) None"
| "app_atoms TripledAtom =
     Derived (Get DoubledAtom (\<lambda>x. Return (on_number (\<lambda>i. i * 1.5) x)) Throw) None"
| "app_atoms CountAtom3WithWrite =
     Derived (Get CountAtom (\<lambda>x. Return (on_number (\<lambda>i. i * 2) x)) Throw)
       (Some (\<lambda>newValue. WGet CountAtom
                 (\<lambda>currentCount. WSet CountAtom (add_values currentCount newValue) Done) WThrow))"
| "app_atoms PlusOneAtom =
     Derived (Get CountAtom (\<lambda>x. Return (on_number (\<lambda>i. i + 1) x)) Throw) None"
| "app_atoms SumAtom =
     Derived (Get DoubledAtom (\<lambda>x. Get PlusOneAtom (\<lambda>y. Return (add_values x y)) Throw) Throw) None"
| "app_atoms FailingAtom = Derived (Throw (UserError ''boom'')) None"
| "app_atoms ReadsFailingAtom = Derived (Get FailingAtom Return Throw) None"
| "app_atoms ForwardingAtom =
     Derived (Get DoubledAtom Return Throw) (Some (\<lambda>newValue. WSet DoubledAtom newValue Done))"
| "app_atoms SwitchAtom =
     Derived (Get CountAtom
                (\<lambda>x. if x = Val 0 then Return (Val 0) else Get CountAtom2 Return Throw) Throw) None"

text \<open>The state once the two source atoms have been constructed.\<close>

definition app_start :: "(app_atom, nat, real) engine" where
  "app_start =
     snd (atom (ConfigValue (Val 0)) None CountAtom2
       (snd (atom (ConfigValue (Val 0)) None CountAtom initial)))"

text \<open>
  The state after the first snapshot of \<open>SumAtom\<close>, which records the diamond, and two
  subscriptions to it.
\<close>

definition app_diamond :: "(app_atom, nat, real) engine" where
  "app_diamond =
     subscribe SumAtom 2 (subscribe SumAtom 1
       (case getSnapshot 5 app_atoms SumAtom app_start of
          None \<Rightarrow> app_start
        | Some (st, _) \<Rightarrow> st))"

text \<open>
  A component that used \<open>SwitchAtom\<close> and is gone: the snapshot of its first render, its
  subscription and the cleanup; then \<open>CountAtom\<close> is set to 1.
\<close>

definition app_unmounted :: "(app_atom, nat, real) engine" where
  "app_unmounted =
     (case getSnapshot 2 app_atoms SwitchAtom app_start of
        None \<Rightarrow> app_start
      | Some (st, _) \<Rightarrow>
          (case setValue 1 app_atoms CountAtom (NewValue (Val 1))
                  (unsubscribe SwitchAtom 1 (subscribe SwitchAtom 1 st)) of
             None \<Rightarrow> app_start
           | Some (st', _) \<Rightarrow> st'))"

section \<open>What a read changes\<close>

lemma only_dependencies_fields:
  "(st' = st\<lparr>dependencies := d\<rparr>) \<longleftrightarrow>
     atomPrimitiveValues st' = atomPrimitiveValues st \<and>
     currentlyComputingAtom st' = currentlyComputingAtom st \<and>
     subscriptions st' = subscriptions st \<and>
     dependencies st' = d \<and>
     fired st' = fired st"
  for st :: "('a, 'c, 'v) engine"
  by (cases st, cases st') auto

lemma track_frame: "track a st = st\<lparr>dependencies := dependencies (track a st)\<rparr>"
  by (simp add: track_def split: option.splits)

lemma dependents_track:
  "dependents (track a st) x =
     (case currentlyComputingAtom st of
        None \<Rightarrow> dependents st x
      | Some c \<Rightarrow> if x = a then set_add c (dependents st a) else dependents st x)"
  by (simp add: track_def dependents_def split: option.splits)

lemma set_set_add: "set (set_add x xs) = insert x (set xs)"
  by (auto simp: set_add_def)

lemma track_values: "atomPrimitiveValues (track a st) = atomPrimitiveValues st"
  by (simp add: track_def split: option.splits)

lemma read_primitive:
  "defs a = Primitive v0 \<Longrightarrow>
     getAtomValue n defs a st
       = Some (st, Inr (case atomPrimitiveValues st a of None \<Rightarrow> Undefined | Some v \<Rightarrow> v))"
  by (cases n) simp_all

text \<open>A read, tracked or not, returning or throwing, changes the dependency graph only.\<close>

lemma read_frame:
  "get n defs a st = Some (st', r) \<Longrightarrow> st' = st\<lparr>dependencies := dependencies st'\<rparr>"
  "getAtomValue n defs a st = Some (st', r) \<Longrightarrow> st' = st\<lparr>dependencies := dependencies st'\<rparr>"
  "call_read n defs p st = Some (st', r) \<Longrightarrow> st' = st\<lparr>dependencies := dependencies st'\<rparr>"
  for st :: "('a, 'c, 'v) engine"
proof (induction n defs a st and n defs a st and n defs p st arbitrary: st' r and st' r and st' r
       rule: get_getAtomValue_call_read.induct)
  case (1 n defs a st)
  from 1 have "st' = (track a st)\<lparr>dependencies := dependencies st'\<rparr>" by simp
  then show ?case using track_frame[of a st]
    by (simp add: only_dependencies_fields)
next
  case (2 defs a st)
  then show ?case by (auto split: atom.splits)
next
  case (3 n defs a st)
  show ?case
  proof (cases "defs a")
    case (Primitive v)
    with 3 show ?thesis by auto
  next
    case (Derived rd wr)
    with "3.prems" obtain s1 where
      run: "call_read n defs rd (st\<lparr>currentlyComputingAtom := Some a\<rparr>) = Some (s1, r)"
      and st': "st' = s1\<lparr>currentlyComputingAtom := currentlyComputingAtom st\<rparr>"
      by (auto split: option.splits)
    from "3.IH"[OF Derived run] st' show ?thesis
      by (simp add: only_dependencies_fields)
  qed
next
  case (4 n defs v st)
  then show ?case by simp
next
  case (5 n defs e st)
  then show ?case by simp
next
  case (6 defs a k h st)
  then show ?case by simp
next
  case (7 n defs a k h st)
  from "7.prems" obtain s1 r1 where g: "get n defs a st = Some (s1, r1)"
    by (auto split: option.splits)
  note f1 = "7.IH"(1)[OF g]
  show ?case
  proof (cases r1)
    case (Inl e)
    with g "7.prems" have "call_read n defs (h e) s1 = Some (st', r)" by simp
    from "7.IH"(2)[OF g refl Inl this] f1 show ?thesis
      by (simp add: only_dependencies_fields)
  next
    case (Inr v)
    with g "7.prems" have "call_read n defs (k v) s1 = Some (st', r)" by simp
    from "7.IH"(3)[OF g refl Inr this] f1 show ?thesis
      by (simp add: only_dependencies_fields)
  qed
qed

lemma read_context:
  "get n defs a st = Some (st', r) \<Longrightarrow> currentlyComputingAtom st' = currentlyComputingAtom st"
  "getAtomValue n defs a st = Some (st', r)
     \<Longrightarrow> currentlyComputingAtom st' = currentlyComputingAtom st"
  "call_read n defs p st = Some (st', r)
     \<Longrightarrow> currentlyComputingAtom st' = currentlyComputingAtom st"
  for st :: "('a, 'c, 'v) engine"
  using read_frame[of n defs _ st st' r] by (simp_all add: only_dependencies_fields)

subsection \<open>The edges a read adds\<close>

lemma edges_added_refl: "edges_added defs st st"
  by (simp add: edges_added_def)

lemma edges_added_trans:
  "edges_added defs st s1 \<Longrightarrow> edges_added defs s1 st' \<Longrightarrow> edges_added defs st st'"
  unfolding edges_added_def by blast

lemma track_edges: "context_derived defs st \<Longrightarrow> edges_added defs st (track a st)"
  by (auto simp: edges_added_def dependents_track context_derived_def set_set_add
           split: option.splits)

lemma read_edges:
  "get n defs a st = Some (st', r) \<Longrightarrow> context_derived defs st \<Longrightarrow> edges_added defs st st'"
  "getAtomValue n defs a st = Some (st', r) \<Longrightarrow> edges_added defs st st'"
  "call_read n defs p st = Some (st', r) \<Longrightarrow> context_derived defs st
     \<Longrightarrow> edges_added defs st st'"
  for st :: "('a, 'c, 'v) engine"
proof (induction n defs a st and n defs a st and n defs p st arbitrary: st' r and st' r and st' r
       rule: get_getAtomValue_call_read.induct)
  case (1 n defs a st)
  from "1.prems" have "getAtomValue n defs a (track a st) = Some (st', r)" by simp
  from "1.IH"[OF this] track_edges[OF "1.prems"(2)] show ?case
    by (rule edges_added_trans[rotated])
next
  case (2 defs a st)
  then show ?case by (auto split: atom.splits simp: edges_added_refl)
next
  case (3 n defs a st)
  show ?case
  proof (cases "defs a")
    case (Primitive v)
    with 3 show ?thesis by (auto simp: edges_added_refl)
  next
    case (Derived rd wr)
    with "3.prems" obtain s1 where
      run: "call_read n defs rd (st\<lparr>currentlyComputingAtom := Some a\<rparr>) = Some (s1, r)"
      and st': "st' = s1\<lparr>currentlyComputingAtom := currentlyComputingAtom st\<rparr>"
      by (auto split: option.splits)
    have "context_derived defs (st\<lparr>currentlyComputingAtom := Some a\<rparr>)"
      using Derived by (simp add: context_derived_def)
    from "3.IH"[OF Derived run this] st' show ?thesis
      by (simp add: edges_added_def dependents_def)
  qed
next
  case (4 n defs v st)
  then show ?case by (simp add: edges_added_refl)
next
  case (5 n defs e st)
  then show ?case by (simp add: edges_added_refl)
next
  case (6 defs a k h st)
  then show ?case by simp
next
  case (7 n defs a k h st)
  from "7.prems" obtain s1 r1 where g: "get n defs a st = Some (s1, r1)"
    by (auto split: option.splits)
  note e1 = "7.IH"(1)[OF g "7.prems"(2)]
  have c1: "context_derived defs s1"
    using read_context(1)[OF g] "7.prems"(2) by (simp add: context_derived_def)
  show ?case
  proof (cases r1)
    case (Inl e)
    with g "7.prems" have "call_read n defs (h e) s1 = Some (st', r)" by simp
    from "7.IH"(2)[OF g refl Inl this c1] e1 show ?thesis
      by (rule edges_added_trans[rotated])
  next
    case (Inr v)
    with g "7.prems" have "call_read n defs (k v) s1 = Some (st', r)" by simp
    from "7.IH"(3)[OF g refl Inr this c1] e1 show ?thesis
      by (rule edges_added_trans[rotated])
  qed
qed

section \<open>The computation context\<close>

text \<open>
  Claim C6. Reading a derived cell saves the computation context, sets it to that cell
  for the duration of its read function and restores the saved context before returning,
  on the normal return path and on the error path alike. The read is the run of the read
  function in the state with the context set to the cell, followed by the restoration:
  whenever that run ends, with a value (\<open>r = Inr v\<close>) or with an error (\<open>r = Inl e\<close>),
  the context is still the cell at its end, and the read ends with the same outcome and
  with the context slot equal to its value before the call. Conversely every read that
  ends arose that way.
\<close>

theorem computation_context_restored:
  assumes "defs a = Derived rd wr"
  shows "getAtomValue (Suc m) defs a st =
           (case call_read m defs rd (st\<lparr>currentlyComputingAtom := Some a\<rparr>) of
              None \<Rightarrow> None
            | Some (s, r) \<Rightarrow> Some (s\<lparr>currentlyComputingAtom := currentlyComputingAtom st\<rparr>, r)) \<and>
         (\<forall>s r. call_read m defs rd (st\<lparr>currentlyComputingAtom := Some a\<rparr>) = Some (s, r) \<longrightarrow>
            currentlyComputingAtom s = Some a \<and>
            (\<exists>st'. getAtomValue (Suc m) defs a st = Some (st', r) \<and>
                   currentlyComputingAtom st' = currentlyComputingAtom st)) \<and>
         (\<forall>n st' r. getAtomValue n defs a st = Some (st', r) \<longrightarrow>
            currentlyComputingAtom st' = currentlyComputingAtom st \<and>
            (\<exists>m s. n = Suc m \<and>
               call_read m defs rd (st\<lparr>currentlyComputingAtom := Some a\<rparr>) = Some (s, r) \<and>
               currentlyComputingAtom s = Some a \<and>
               st' = s\<lparr>currentlyComputingAtom := currentlyComputingAtom st\<rparr>))"
proof (intro conjI allI impI)
  show eq: "getAtomValue (Suc m) defs a st =
           (case call_read m defs rd (st\<lparr>currentlyComputingAtom := Some a\<rparr>) of
              None \<Rightarrow> None
            | Some (s, r) \<Rightarrow> Some (s\<lparr>currentlyComputingAtom := currentlyComputingAtom st\<rparr>, r))"
    for m using assms by simp
  {
    fix s r
    assume run: "call_read m defs rd (st\<lparr>currentlyComputingAtom := Some a\<rparr>) = Some (s, r)"
    from read_context(3)[OF run] show "currentlyComputingAtom s = Some a" by simp
    from run show "\<exists>st'. getAtomValue (Suc m) defs a st = Some (st', r) \<and>
                   currentlyComputingAtom st' = currentlyComputingAtom st"
      using assms by simp
  }
  fix n st' r
  assume g: "getAtomValue n defs a st = Some (st', r)"
  then show "currentlyComputingAtom st' = currentlyComputingAtom st"
    by (rule read_context(2))
  from assms g obtain k where n: "n = Suc k"
    by (cases n) auto
  with g eq[of k] obtain s where
    run: "call_read k defs rd (st\<lparr>currentlyComputingAtom := Some a\<rparr>) = Some (s, r)"
    and st': "st' = s\<lparr>currentlyComputingAtom := currentlyComputingAtom st\<rparr>"
    by (auto split: option.splits)
  from read_context(3)[OF run] have "currentlyComputingAtom s = Some a" by simp
  with n run st' show "\<exists>m s. n = Suc m \<and>
               call_read m defs rd (st\<lparr>currentlyComputingAtom := Some a\<rparr>) = Some (s, r) \<and>
               currentlyComputingAtom s = Some a \<and>
               st' = s\<lparr>currentlyComputingAtom := currentlyComputingAtom st\<rparr>"
    by blast
qed

text \<open>
  A read that returns, at top level and nested in the evaluation of \<open>TripledAtom\<close> (the
  state in which \<open>TripledAtom\<close> reads \<open>DoubledAtom\<close>), and a read that throws:
  \<open>ReadsFailingAtom\<close> reads \<open>FailingAtom\<close>, whose read function throws.
\<close>

theorem computation_context_restored_witness:
  "map_option (\<lambda>(st', r). (r, currentlyComputingAtom st'))
     (getAtomValue 2 app_atoms DoubledAtom app_start) = Some (Inr (Val 0), None) \<and>
   map_option (\<lambda>(st', r). (r, currentlyComputingAtom st'))
     (getAtomValue 2 app_atoms DoubledAtom
        (track DoubledAtom (app_start\<lparr>currentlyComputingAtom := Some TripledAtom\<rparr>)))
     = Some (Inr (Val 0), Some TripledAtom) \<and>
   map_option (\<lambda>(st', r). (r, currentlyComputingAtom st'))
     (getAtomValue 3 app_atoms ReadsFailingAtom app_start)
     = Some (Inl (UserError ''boom''), None)"
proof -
  let ?nested = "track DoubledAtom (app_start\<lparr>currentlyComputingAtom := Some TripledAtom\<rparr>)"
  have v: "atomPrimitiveValues app_start CountAtom = Some (Val 0)"
    by (simp add: app_start_def atom_def)
  have c: "currentlyComputingAtom app_start = None"
    by (simp add: app_start_def atom_def initial_def)
  have d: "app_atoms DoubledAtom
             = Derived (Get CountAtom (\<lambda>x. Return (on_number (\<lambda>i. i * 2) x)) Throw) None"
    by simp
  have f: "app_atoms ReadsFailingAtom = Derived (Get FailingAtom Return Throw) None" by simp
  have two: "(2::nat) = Suc 1" and three: "(3::nat) = Suc 2" by simp_all
  obtain s1 where r1: "call_read 1 app_atoms (Get CountAtom (\<lambda>x. Return (on_number (\<lambda>i. i * 2) x)) Throw)
       (app_start\<lparr>currentlyComputingAtom := Some DoubledAtom\<rparr>) = Some (s1, Inr (Val 0))"
    by (simp add: read_primitive track_values v on_number_def)
  obtain s2 where r2: "call_read 1 app_atoms (Get CountAtom (\<lambda>x. Return (on_number (\<lambda>i. i * 2) x)) Throw)
       (?nested\<lparr>currentlyComputingAtom := Some DoubledAtom\<rparr>) = Some (s2, Inr (Val 0))"
    by (simp add: read_primitive track_values v on_number_def)
  obtain s3 where r3: "call_read 2 app_atoms (Get FailingAtom Return Throw)
       (app_start\<lparr>currentlyComputingAtom := Some ReadsFailingAtom\<rparr>)
         = Some (s3, Inl (UserError ''boom''))"
    by (simp add: eval_nat_numeral)
  from computation_context_restored[where defs = app_atoms and a = DoubledAtom and m = 1 and st = app_start, OF d] r1
  obtain t1 where "getAtomValue 2 app_atoms DoubledAtom app_start = Some (t1, Inr (Val 0))"
    "currentlyComputingAtom t1 = currentlyComputingAtom app_start"
    unfolding two by blast
  moreover from computation_context_restored[where defs = app_atoms and a = DoubledAtom and m = 1 and st = ?nested, OF d] r2
  obtain t2 where "getAtomValue 2 app_atoms DoubledAtom ?nested = Some (t2, Inr (Val 0))"
    "currentlyComputingAtom t2 = currentlyComputingAtom ?nested"
    unfolding two by blast
  moreover from computation_context_restored[where defs = app_atoms and a = ReadsFailingAtom and m = 2 and st = app_start, OF f] r3
  obtain t3 where "getAtomValue 3 app_atoms ReadsFailingAtom app_start
                     = Some (t3, Inl (UserError ''boom''))"
    "currentlyComputingAtom t3 = currentlyComputingAtom app_start"
    unfolding three by blast
  ultimately show ?thesis by (simp add: c track_def)
qed

section \<open>Propagation\<close>

lemma notify_callbacks: "notify a st = st\<lparr>fired := fired st @ callbacks st a\<rparr>"
  by (simp add: notify_def callbacks_def split: option.splits)

text \<open>
  The engine's propagation against the specification's wording: it ends exactly when
  the specification's recursion does, and then the state is the one before with the
  callbacks of the specification appended to the trace.
\<close>

lemma propagation_trace:
  "updateReadonlyDerivedAtom n a st =
     map_option (\<lambda>tr. st\<lparr>fired := fired st @ tr\<rparr>)
       (notifications n (subscriptions st) (dependencies st) a)"
  "forEach_dependent n ds st =
     map_option (\<lambda>tr. st\<lparr>fired := fired st @ tr\<rparr>)
       (notifications_each n (subscriptions st) (dependencies st) ds)"
  for st :: "('a, 'c, 'v) engine"
proof (induction n a st and n ds st rule: updateReadonlyDerivedAtom_forEach_dependent.induct)
  case (1 a st)
  show ?case by simp
next
  case (2 n a st)
  show ?case
  proof (cases "dependencies st a")
    case None
    then show ?thesis by (simp add: notify_callbacks callbacks_def)
  next
    case (Some ds)
    have "forEach_dependent n ds (notify a st) =
            map_option (\<lambda>tr. (notify a st)\<lparr>fired := fired (notify a st) @ tr\<rparr>)
              (notifications_each n (subscriptions (notify a st))
                 (dependencies (notify a st)) ds)"
      by (rule "2.IH"[OF refl]) (simp add: notify_callbacks Some)
    then show ?thesis using Some
      by (simp add: notify_callbacks callbacks_def Let_def split: option.splits)
  qed
next
  case (3 n st)
  show ?case by simp
next
  case (4 n d rest st)
  show ?case
  proof (cases "notifications n (subscriptions st) (dependencies st) d")
    case None
    with "4.IH"(1) show ?thesis by simp
  next
    case (Some first)
    with "4.IH"(1) have u:
      "updateReadonlyDerivedAtom n d st = Some (st\<lparr>fired := fired st @ first\<rparr>)"
      by simp
    from "4.IH"(2)[OF u] u Some show ?thesis
      by (simp split: option.splits)
  qed
qed

lemma source_write_trace:
  "updatePrimitiveAtom n a v st =
     map_option (\<lambda>below. st\<lparr>atomPrimitiveValues := (atomPrimitiveValues st)(a \<mapsto> v),
                             fired := fired st @ callbacks st a @ below\<rparr>)
       (notifications_each n (subscriptions st) (dependencies st) (dependents st a))"
  for st :: "('a, 'c, 'v) engine"
  by (cases "dependencies st a")
     (simp_all add: updatePrimitiveAtom_def Let_def notify_callbacks callbacks_def dependents_def
        propagation_trace(2) option.map_comp comp_def)

text \<open>
  Claim C5. Recompute-and-notify of a derived cell fires the cell's callbacks and then
  recurses into each of its dependents, and does nothing else: the state it leaves is the
  state it found with those callbacks appended to the trace, so the value store has no
  new entry and no changed one, and no read function has run (the function is not even
  given the atoms' definitions); the value of the cell is computed by the next
  \<open>getAtomValue\<close>. Over a whole propagation, started by a write to a source cell, the only
  value-store entry written is the one of that source cell.
\<close>

theorem recompute_and_notify_only_notifies:
  "updateReadonlyDerivedAtom n a st =
     map_option (\<lambda>tr. st\<lparr>fired := fired st @ tr\<rparr>)
       (notifications n (subscriptions st) (dependencies st) a) \<and>
   updatePrimitiveAtom n a v st =
     map_option (\<lambda>below. st\<lparr>atomPrimitiveValues := (atomPrimitiveValues st)(a \<mapsto> v),
                             fired := fired st @ callbacks st a @ below\<rparr>)
       (notifications_each n (subscriptions st) (dependencies st) (dependents st a))"
  for st :: "('a, 'c, 'v) engine"
  by (intro conjI propagation_trace(1) source_write_trace)

subsection \<open>The diamond\<close>

lemma count_list_distinct: "distinct xs \<Longrightarrow> x \<in> set xs \<Longrightarrow> count_list xs x = 1"
  by (induction xs) auto

lemma diamond_trace:
  assumes "dependents st S = [D1, D2]" "dependents st D1 = [D]" "dependents st D2 = [D]"
    "dependents st D = []"
  shows "notifications_each (Suc (Suc n)) (subscriptions st) (dependencies st) (dependents st S)
           = Some (callbacks st D1 @ callbacks st D @ callbacks st D2 @ callbacks st D)"
  using assms by (simp add: dependents_def callbacks_def split: option.splits)

text \<open>
  Claim C4. In a diamond (the dependents of \<open>S\<close> are \<open>D1\<close> and \<open>D2\<close>, and \<open>D\<close> is the
  dependent of both), one write to the source cell \<open>S\<close> returns and runs the callbacks of
  \<open>D\<close> twice, once after those of \<open>D1\<close> and once after those of \<open>D2\<close>: a callback
  subscribed to \<open>D\<close>, and to none of the other three cells, is fired exactly twice.
\<close>

theorem diamond_notified_twice:
  assumes "is_primitive (defs S)"
    and "dependents st S = [D1, D2]" and "dependents st D1 = [D]"
    and "dependents st D2 = [D]" and "dependents st D = []"
    and "distinct (callbacks st D)"
  shows "\<exists>st'. setValue (Suc (Suc n)) defs S (NewValue v) st = Some (st', Inr ()) \<and>
           fired st' = fired st @ callbacks st S @ callbacks st D1 @ callbacks st D
                         @ callbacks st D2 @ callbacks st D \<and>
           (\<forall>c \<in> set (callbacks st D).
              c \<notin> set (callbacks st S) \<union> set (callbacks st D1) \<union> set (callbacks st D2) \<longrightarrow>
              count_list (fired st') c = count_list (fired st) c + 2)"
proof -
  let ?st' = "st\<lparr>atomPrimitiveValues := (atomPrimitiveValues st)(S \<mapsto> v),
                  fired := fired st @ callbacks st S @ callbacks st D1 @ callbacks st D
                         @ callbacks st D2 @ callbacks st D\<rparr>"
  have "updatePrimitiveAtom (Suc (Suc n)) S v st = Some ?st'"
    unfolding source_write_trace diamond_trace[OF assms(2-5)] by simp
  with assms(1) have w: "setValue (Suc (Suc n)) defs S (NewValue v) st = Some (?st', Inr ())"
    by (cases "defs S") (simp_all add: setValue_def updateAtom_def)
  have "count_list (fired ?st') c = count_list (fired st) c + 2"
    if "c \<in> set (callbacks st D)"
      "c \<notin> set (callbacks st S) \<union> set (callbacks st D1) \<union> set (callbacks st D2)" for c
    using that assms(6) by (simp add: count_list_distinct)
  with w show ?thesis by (intro exI[of _ ?st']) simp
qed

lemma app_diamond_graph:
  "dependents app_diamond CountAtom = [DoubledAtom, PlusOneAtom]"
  "dependents app_diamond DoubledAtom = [SumAtom]"
  "dependents app_diamond PlusOneAtom = [SumAtom]"
  "dependents app_diamond SumAtom = []"
  "callbacks app_diamond CountAtom = []"
  "callbacks app_diamond DoubledAtom = []"
  "callbacks app_diamond PlusOneAtom = []"
  "callbacks app_diamond SumAtom = [1, 2]"
  "fired app_diamond = []"
  by (simp_all add: app_diamond_def app_start_def getSnapshot_def atom_def initial_def
        subscribe_def track_def set_add_def dependents_def callbacks_def eval_nat_numeral
        on_number_def add_values_def)

lemma app_diamond_dependencies:
  "dependencies app_diamond CountAtom = Some [DoubledAtom, PlusOneAtom]"
  "dependencies app_diamond DoubledAtom = Some [SumAtom]"
  "dependencies app_diamond PlusOneAtom = Some [SumAtom]"
  "dependencies app_diamond SumAtom = None"
  by (simp_all add: app_diamond_def app_start_def getSnapshot_def atom_def initial_def
        subscribe_def track_def set_add_def eval_nat_numeral on_number_def add_values_def)

lemma app_diamond_subscriptions:
  "subscriptions app_diamond CountAtom = None"
  "subscriptions app_diamond DoubledAtom = None"
  "subscriptions app_diamond PlusOneAtom = None"
  "subscriptions app_diamond SumAtom = Some [1, 2]"
  by (simp_all add: app_diamond_def app_start_def getSnapshot_def atom_def initial_def
        subscribe_def track_def set_add_def eval_nat_numeral on_number_def add_values_def)

text \<open>
  The diamond recorded by the first snapshot of \<open>SumAtom\<close>, with its two subscribers:
  one write to \<open>CountAtom\<close> fires each of them twice.
\<close>

theorem diamond_notified_twice_witness:
  "is_primitive (app_atoms CountAtom) \<and>
   dependents app_diamond CountAtom = [DoubledAtom, PlusOneAtom] \<and>
   dependents app_diamond DoubledAtom = [SumAtom] \<and>
   dependents app_diamond PlusOneAtom = [SumAtom] \<and>
   dependents app_diamond SumAtom = [] \<and>
   callbacks app_diamond SumAtom = [1, 2] \<and>
   map_option (\<lambda>(st', r). (fired st', r))
     (setValue 2 app_atoms CountAtom (NewValue (Val 5)) app_diamond)
     = Some ([1, 2, 1, 2], Inr ())"
proof -
  have p: "is_primitive (app_atoms CountAtom)" by simp
  have d: "distinct (callbacks app_diamond SumAtom)" by (simp add: app_diamond_graph)
  from diamond_notified_twice[of app_atoms CountAtom app_diamond DoubledAtom PlusOneAtom
         SumAtom 0 "Val 5", OF p app_diamond_graph(1-4) d]
  show ?thesis by (auto simp: app_diamond_graph eval_nat_numeral)
qed

section \<open>Reading after a write\<close>

lemma read_mapped_source:
  assumes "defs S = Primitive v0" and "defs D = Derived (Get S (\<lambda>x. Return (f x)) h) wr"
    and "atomPrimitiveValues st S = Some v"
  shows "\<exists>st'. getAtomValue (Suc (Suc n)) defs D st = Some (st', Inr (f v))"
  using assms by (simp add: read_primitive track_values)

lemma read_mapped_derived:
  assumes "defs S = Primitive v0" and "defs D1 = Derived (Get S (\<lambda>x. Return (f x)) h1) w1"
    and "defs D2 = Derived (Get D1 (\<lambda>x. Return (g x)) h2) w2"
    and "atomPrimitiveValues st S = Some v"
  shows "\<exists>st'. getAtomValue (Suc (Suc (Suc (Suc n)))) defs D2 st = Some (st', Inr (g (f v)))"
proof -
  let ?s = "track D1 (st\<lparr>currentlyComputingAtom := Some D2\<rparr>)"
  have "atomPrimitiveValues ?s S = Some v"
    using assms(4) by (simp add: track_values)
  from read_mapped_source[OF assms(1,2) this, of n] obtain s1 where
    "getAtomValue (Suc (Suc n)) defs D1 ?s = Some (s1, Inr (f v))" by blast
  then show ?thesis using assms(3) by simp
qed

lemma source_write_stores:
  assumes "defs S = Primitive v0" and "setValue n defs S (NewValue v) st = Some (st1, res)"
  shows "atomPrimitiveValues st1 S = Some v"
  using assms
  by (auto simp: setValue_def updateAtom_def source_write_trace split: option.splits)

text \<open>
  A write to a source cell returns when the part of the dependency graph below the cell
  has no cycle: when the cells can be ranked so that, from the source cell downwards,
  every dependent has a smaller rank than the cell it depends on. The bound on the calls
  need not exceed the rank of the source cell.
\<close>

lemma ranked_notifications:
  "(\<forall>a d. (rank a :: nat) \<le> limit \<longrightarrow> d \<in> set (case deps a of None \<Rightarrow> [] | Some ds \<Rightarrow> ds)
            \<longrightarrow> rank d < rank a)
     \<Longrightarrow> (rank a :: nat) \<le> limit \<Longrightarrow> rank a < n \<Longrightarrow> \<exists>tr. notifications n subs deps a = Some tr"
  "(\<forall>a d. (rank a :: nat) \<le> limit \<longrightarrow> d \<in> set (case deps a of None \<Rightarrow> [] | Some ds \<Rightarrow> ds)
            \<longrightarrow> rank d < rank a)
     \<Longrightarrow> (\<forall>d \<in> set ds. rank d \<le> limit \<and> rank d < n)
     \<Longrightarrow> \<exists>tr. notifications_each n subs deps ds = Some tr"
proof (induction n subs deps a and n subs deps ds
       rule: notifications_notifications_each.induct)
  case (1 subs deps a)
  then show ?case by simp
next
  case (2 n subs deps a)
  let ?ds = "case deps a of None \<Rightarrow> [] | Some ds \<Rightarrow> ds"
  have "rank d \<le> limit \<and> rank d < n" if "d \<in> set ?ds" for d
  proof -
    from "2.prems"(1,2) that have "rank d < rank a" by blast
    with "2.prems"(2,3) show ?thesis by simp
  qed
  then have "\<forall>d \<in> set ?ds. rank d \<le> limit \<and> rank d < n" by blast
  from "2.IH"[OF "2.prems"(1) this] show ?case by auto
next
  case (3 n subs deps)
  show ?case by simp
next
  case (4 n subs deps d ds)
  from "4.prems"(2) have d: "rank d \<le> limit" "rank d < n"
    and ds: "\<forall>d \<in> set ds. rank d \<le> limit \<and> rank d < n" by simp_all
  from "4.IH"(1)[OF "4.prems"(1) d] obtain first where
    f: "notifications n subs deps d = Some first" by blast
  from "4.IH"(2)[OF f "4.prems"(1) ds] f show ?case by auto
qed

lemma ranked_source_write:
  assumes "defs S = Primitive v0"
    and "\<forall>a d. (rank a :: nat) \<le> rank S \<longrightarrow> d \<in> set (dependents st a) \<longrightarrow> rank d < rank a"
    and "rank S \<le> n"
  shows "\<exists>st1. setValue n defs S (NewValue v) st = Some (st1, Inr ())"
proof -
  from assms(2) have ranked:
    "\<forall>a d. rank a \<le> rank S \<longrightarrow>
       d \<in> set (case dependencies st a of None \<Rightarrow> [] | Some ds \<Rightarrow> ds) \<longrightarrow> rank d < rank a"
    by (simp add: dependents_def)
  have "rank d \<le> rank S \<and> rank d < n" if "d \<in> set (dependents st S)" for d
  proof -
    from assms(2) that have "rank d < rank S" by blast
    with assms(3) show ?thesis by simp
  qed
  then have "\<forall>d \<in> set (dependents st S). rank d \<le> rank S \<and> rank d < n" by blast
  from ranked_notifications(2)[OF ranked this] obtain below where
    "notifications_each n (subscriptions st) (dependencies st) (dependents st S) = Some below"
    by blast
  with assms(1) show ?thesis
    by (simp add: setValue_def updateAtom_def source_write_trace)
qed

text \<open>
  Claim C1. Let \<open>S\<close> be a source cell and \<open>D1\<close> a derived cell whose read function is
  \<^verbatim>\<open>get(S)\<close> mapped through \<open>f\<close>. The write of \<open>v\<close> to \<open>S\<close> returns normally when the
  graph below \<open>S\<close> has no cycle, in particular when \<open>S\<close> has no dependents yet. After a
  write of \<open>v\<close> to \<open>S\<close>, which can only have returned normally, a read of \<open>D1\<close>, tracked
  or not, returns \<open>f v\<close>; and for every cell \<open>D2\<close> whose read function is \<^verbatim>\<open>get(D1)\<close>
  mapped through \<open>g\<close>, a read of \<open>D2\<close> returns \<open>g (f v)\<close>.
\<close>

theorem derived_reads_written_value:
  assumes "defs S = Primitive v0"
    and "defs D1 = Derived (Get S (\<lambda>x. Return (f x)) h1) w1"
  shows "((\<forall>a d. rank a \<le> rank S \<longrightarrow> d \<in> set (dependents st a) \<longrightarrow> rank d < rank a)
            \<and> (rank S :: nat) \<le> n
            \<longrightarrow> (\<exists>st1. setValue n defs S (NewValue v) st = Some (st1, Inr ()))) \<and>
         (dependents st S = [] \<longrightarrow>
            (\<exists>st1. setValue n defs S (NewValue v) st = Some (st1, Inr ()))) \<and>
         (\<forall>st1 res. setValue n defs S (NewValue v) st = Some (st1, res) \<longrightarrow>
            res = Inr () \<and>
            (\<exists>st2. getSnapshot (Suc (Suc m)) defs D1 st1 = Some (st2, Inr (f v))) \<and>
            (\<exists>st2. get (Suc (Suc m)) defs D1 st1 = Some (st2, Inr (f v))) \<and>
            (\<forall>D2 g h2 w2. defs D2 = Derived (Get D1 (\<lambda>x. Return (g x)) h2) w2 \<longrightarrow>
               (\<exists>st2. getSnapshot (Suc (Suc (Suc (Suc m)))) defs D2 st1
                        = Some (st2, Inr (g (f v)))) \<and>
               (\<exists>st2. get (Suc (Suc (Suc (Suc m)))) defs D2 st1 = Some (st2, Inr (g (f v))))))"
proof (intro conjI allI impI)
  assume "(\<forall>a d. rank a \<le> rank S \<longrightarrow> d \<in> set (dependents st a) \<longrightarrow> rank d < rank a)
            \<and> rank S \<le> n"
  then have "\<forall>a d. rank a \<le> rank S \<longrightarrow> d \<in> set (dependents st a) \<longrightarrow> rank d < rank a"
    and "rank S \<le> n" by simp_all
  from ranked_source_write[where defs = defs and S = S and rank = rank, OF assms(1) this]
  show "\<exists>st1. setValue n defs S (NewValue v) st = Some (st1, Inr ())" .
next
  assume "dependents st S = []"
  then show "\<exists>st1. setValue n defs S (NewValue v) st = Some (st1, Inr ())"
    using assms(1) by (simp add: setValue_def updateAtom_def source_write_trace)
next
  fix st1 res
  assume w: "setValue n defs S (NewValue v) st = Some (st1, res)"
  from w assms(1) show "res = Inr ()"
    by (auto simp: setValue_def split: option.splits)
  note stored = source_write_stores[OF assms(1) w]
  have tracked: "atomPrimitiveValues (track a st1) S = Some v" for a
    using stored by (simp add: track_values)
  have one: "\<exists>st2. getAtomValue (Suc (Suc m)) defs D1 s = Some (st2, Inr (f v))"
    if "atomPrimitiveValues s S = Some v" for s
    using read_mapped_source[OF assms(1,2) that] .
  have two: "\<exists>st2. getAtomValue (Suc (Suc (Suc (Suc m)))) defs D2 s = Some (st2, Inr (g (f v)))"
    if "defs D2 = Derived (Get D1 (\<lambda>x. Return (g x)) h2) w2"
      and "atomPrimitiveValues s S = Some v" for D2 g h2 w2 s
    using read_mapped_derived[OF assms(1,2) that] .
  show "\<exists>st2. getSnapshot (Suc (Suc m)) defs D1 st1 = Some (st2, Inr (f v))"
    unfolding getSnapshot_def using one[OF stored] .
  show "\<exists>st2. get (Suc (Suc m)) defs D1 st1 = Some (st2, Inr (f v))"
    unfolding get.simps using one[OF tracked] .
  fix D2 g h2 w2
  assume d2: "defs D2 = Derived (Get D1 (\<lambda>x. Return (g x)) h2) w2"
  show "\<exists>st2. getSnapshot (Suc (Suc (Suc (Suc m)))) defs D2 st1 = Some (st2, Inr (g (f v)))"
    unfolding getSnapshot_def using two[OF d2 stored] .
  show "\<exists>st2. get (Suc (Suc (Suc (Suc m)))) defs D2 st1 = Some (st2, Inr (g (f v)))"
    unfolding get.simps using two[OF d2 tracked] .
qed

lemma app_diamond_dependents:
  "dependents app_diamond a =
     (case a of
        CountAtom \<Rightarrow> [DoubledAtom, PlusOneAtom]
      | DoubledAtom \<Rightarrow> [SumAtom]
      | PlusOneAtom \<Rightarrow> [SumAtom]
      | _ \<Rightarrow> [])"
  by (cases a)
     (simp_all add: app_diamond_def app_start_def getSnapshot_def atom_def initial_def
        subscribe_def track_def set_add_def dependents_def eval_nat_numeral
        on_number_def add_values_def)

text \<open>
  \<^verbatim>\<open>countAtom\<close>, \<^verbatim>\<open>doubledAtom\<close> and \<^verbatim>\<open>tripledAtom\<close>. Before any read
  \<^verbatim>\<open>countAtom\<close> has no dependents: the write of 5 returns and \<^verbatim>\<open>doubledAtom\<close> reads
  10. In the diamond state the write of 4 returns and the reads give 8 and 12.
\<close>

theorem derived_reads_written_value_witness:
  "dependents app_start CountAtom = [] \<and>
   (case setValue 0 app_atoms CountAtom (NewValue (Val 5)) app_start of
      None \<Rightarrow> False
    | Some (st1, res) \<Rightarrow>
        res = Inr () \<and>
        map_option snd (getSnapshot 2 app_atoms DoubledAtom st1) = Some (Inr (Val 10))) \<and>
   (case setValue 2 app_atoms CountAtom (NewValue (Val 4)) app_diamond of
      None \<Rightarrow> False
    | Some (st1, res) \<Rightarrow>
        res = Inr () \<and>
        map_option snd (getSnapshot 2 app_atoms DoubledAtom st1) = Some (Inr (Val 8)) \<and>
        map_option snd (getSnapshot 4 app_atoms TripledAtom st1) = Some (Inr (Val 12)))"
proof -
  let ?rank = "\<lambda>a. case a of CountAtom \<Rightarrow> 2 | DoubledAtom \<Rightarrow> 1 | PlusOneAtom \<Rightarrow> 1
                        | _ \<Rightarrow> (0::nat)"
  have s: "app_atoms CountAtom = Primitive (Val 0)" by simp
  have d: "app_atoms DoubledAtom
             = Derived (Get CountAtom (\<lambda>x. Return (on_number (\<lambda>i. i * 2) x)) Throw) None"
    by simp
  have t: "app_atoms TripledAtom
             = Derived (Get DoubledAtom (\<lambda>x. Return (on_number (\<lambda>i. i * 1.5) x)) Throw) None"
    by simp
  have none: "dependents app_start CountAtom = []"
    by (simp add: dependents_def app_start_def atom_def initial_def)
  have ranked: "\<forall>a d. ?rank a \<le> ?rank CountAtom \<longrightarrow> d \<in> set (dependents app_diamond a)
                  \<longrightarrow> ?rank d < ?rank a"
  proof (intro allI impI)
    fix a d assume "d \<in> set (dependents app_diamond a)"
    then show "?rank d < ?rank a"
      by (cases a) (auto simp: app_diamond_dependents)
  qed
  note start = derived_reads_written_value[where defs = app_atoms and S = CountAtom
      and ?D1.0 = DoubledAtom and f = "on_number (\<lambda>i. i * 2)" and st = app_start
      and v = "Val 5" and n = 0 and m = 0 and rank = ?rank, OF s d]
  note diamond = derived_reads_written_value[where defs = app_atoms and S = CountAtom
      and ?D1.0 = DoubledAtom and f = "on_number (\<lambda>i. i * 2)" and st = app_diamond
      and v = "Val 4" and n = 2 and m = 0 and rank = ?rank, OF s d]
  from start none obtain st1 where
    w1: "setValue 0 app_atoms CountAtom (NewValue (Val 5)) app_start = Some (st1, Inr ())"
    by blast
  from start w1 obtain s1 where
    r1: "getSnapshot (Suc (Suc 0)) app_atoms DoubledAtom st1
           = Some (s1, Inr (on_number (\<lambda>i. i * 2) (Val 5)))"
    by blast
  have "?rank CountAtom \<le> 2" by simp
  with diamond[THEN conjunct1] ranked obtain st2 where
    w2: "setValue 2 app_atoms CountAtom (NewValue (Val 4)) app_diamond = Some (st2, Inr ())"
    by blast
  from diamond w2 obtain s2 where
    r2: "getSnapshot (Suc (Suc 0)) app_atoms DoubledAtom st2
           = Some (s2, Inr (on_number (\<lambda>i. i * 2) (Val 4)))"
    by blast
  from diamond w2 have "\<forall>D2 g h2 w2.
       app_atoms D2 = Derived (Get DoubledAtom (\<lambda>x. Return (g x)) h2) w2 \<longrightarrow>
       (\<exists>st3. getSnapshot (Suc (Suc (Suc (Suc 0)))) app_atoms D2 st2
                = Some (st3, Inr (g (on_number (\<lambda>i. i * 2) (Val 4)))))"
    by blast
  from this[rule_format, of TripledAtom "on_number (\<lambda>i. i * 1.5)" Throw None, OF t]
  obtain s3 where
    r3: "getSnapshot (Suc (Suc (Suc (Suc 0)))) app_atoms TripledAtom st2
           = Some (s3, Inr (on_number (\<lambda>i. i * 1.5) (on_number (\<lambda>i. i * 2) (Val 4))))"
    by blast
  show ?thesis using none w1 r1 w2 r2 r3
    by (simp add: on_number_def eval_nat_numeral)
qed

section \<open>Edges and errors\<close>

text \<open>
  Claim C10. While \<open>D\<close> is being evaluated, a tracked read of \<open>C\<close> first records the
  edge from \<open>C\<close> to \<open>D\<close> and then resolves the value of \<open>C\<close> in the state that has the
  edge; so the edge is in the graph after the read, whether the read returned a value or
  threw an error.
\<close>

theorem edge_recorded_before_resolution:
  assumes "currentlyComputingAtom st = Some D"
  shows "get n defs C st = getAtomValue n defs C (track C st) \<and>
         D \<in> set (dependents (track C st) C) \<and>
         (\<forall>st' r. get n defs C st = Some (st', r) \<longrightarrow> D \<in> set (dependents st' C))"
proof -
  have recorded: "D \<in> set (dependents (track C st) C)"
    using assms by (simp add: dependents_track set_set_add)
  have "D \<in> set (dependents st' C)" if "get n defs C st = Some (st', r)" for st' r
  proof -
    from that have "getAtomValue n defs C (track C st) = Some (st', r)" by simp
    from read_edges(2)[OF this] recorded show ?thesis
      by (auto simp: edges_added_def)
  qed
  with recorded show ?thesis by simp
qed


text \<open>\<open>ReadsFailingAtom\<close> reading \<open>FailingAtom\<close>, which throws: the edge is there.\<close>

theorem edge_recorded_before_resolution_witness:
  "currentlyComputingAtom (app_start\<lparr>currentlyComputingAtom := Some ReadsFailingAtom\<rparr>)
     = Some ReadsFailingAtom \<and>
   map_option snd (get 1 app_atoms FailingAtom
       (app_start\<lparr>currentlyComputingAtom := Some ReadsFailingAtom\<rparr>))
     = Some (Inl (UserError ''boom'')) \<and>
   map_option (\<lambda>(st', r). ReadsFailingAtom \<in> set (dependents st' FailingAtom))
     (get 1 app_atoms FailingAtom (app_start\<lparr>currentlyComputingAtom := Some ReadsFailingAtom\<rparr>))
     = Some True"
proof -
  let ?st = "app_start\<lparr>currentlyComputingAtom := Some ReadsFailingAtom\<rparr>"
  have c: "currentlyComputingAtom ?st = Some ReadsFailingAtom" by simp
  obtain st' where g: "get 1 app_atoms FailingAtom ?st = Some (st', Inl (UserError ''boom''))"
    by simp
  from edge_recorded_before_resolution[OF c, of 1 app_atoms FailingAtom] g
  have "ReadsFailingAtom \<in> set (dependents st' FailingAtom)" by blast
  with g show ?thesis by simp
qed

section \<open>The snapshot read\<close>

text \<open>
  A read against the specification's wording: it ends exactly when the resolution does,
  with the same outcome, and the state it leaves is the state it found with the edges of
  the tracked reads recorded, in their order; a tracked read records the edge to the
  computation context first.
\<close>

lemma recorded_simps [simp]:
  "recorded [] deps = deps"
  "recorded ((x, c) # reads) deps = recorded reads (record_edge x c deps)"
  "recorded (xs @ ys) deps = recorded ys (recorded xs deps)"
  by (simp_all add: recorded_def)

lemma track_record:
  "track a st =
     (case currentlyComputingAtom st of
        None \<Rightarrow> st
      | Some c \<Rightarrow> st\<lparr>dependencies := record_edge a c (dependencies st)\<rparr>)"
  by (simp add: track_def record_edge_def split: option.splits)

lemma read_resolve:
  "get n defs a st =
     map_option (\<lambda>(r, reads).
         (st\<lparr>dependencies := recorded
               ((case currentlyComputingAtom st of None \<Rightarrow> [] | Some c \<Rightarrow> [(a, c)]) @ reads)
               (dependencies st)\<rparr>, r))
       (resolve n defs (atomPrimitiveValues st) a)"
  "getAtomValue n defs a st =
     map_option (\<lambda>(r, reads). (st\<lparr>dependencies := recorded reads (dependencies st)\<rparr>, r))
       (resolve n defs (atomPrimitiveValues st) a)"
  "currentlyComputingAtom st = Some c \<Longrightarrow>
   call_read n defs p st =
     map_option (\<lambda>(r, reads). (st\<lparr>dependencies := recorded reads (dependencies st)\<rparr>, r))
       (resolve_body n defs (atomPrimitiveValues st) c p)"
  for st :: "('a, 'c, 'v) engine"
proof (induction n defs a st and n defs a st and n defs p st arbitrary: and and c
       rule: get_getAtomValue_call_read.induct)
  case (1 n defs a st)
  show ?case
    unfolding get.simps "1.IH"
    by (cases "resolve n defs (atomPrimitiveValues st) a")
       (auto simp: track_record track_values split: option.splits)
next
  case (2 defs a st)
  show ?case by (cases "defs a") simp_all
next
  case (3 n defs a st)
  show ?case
  proof (cases "defs a")
    case (Primitive v)
    then show ?thesis by simp
  next
    case (Derived rd wr)
    have "call_read n defs rd (st\<lparr>currentlyComputingAtom := Some a\<rparr>) =
            map_option (\<lambda>(r, reads).
                ((st\<lparr>currentlyComputingAtom := Some a\<rparr>)
                   \<lparr>dependencies := recorded reads
                      (dependencies (st\<lparr>currentlyComputingAtom := Some a\<rparr>))\<rparr>, r))
              (resolve_body n defs
                 (atomPrimitiveValues (st\<lparr>currentlyComputingAtom := Some a\<rparr>)) a rd)"
      by (rule "3.IH"[OF Derived]) simp
    then show ?thesis using Derived
      by (cases "resolve_body n defs (atomPrimitiveValues st) a rd") auto
  qed
next
  case (4 n defs v st)
  show ?case by simp
next
  case (5 n defs e st)
  show ?case by simp
next
  case (6 defs a k h st)
  show ?case by simp
next
  case (7 n defs a k h st)
  note c = "7.prems"
  show ?case
  proof (cases "resolve n defs (atomPrimitiveValues st) a")
    case None
    with "7.IH"(1) show ?thesis by simp
  next
    case (Some res)
    obtain r inside where res: "res = (r, inside)" by (cases res)
    let ?s1 = "st\<lparr>dependencies := recorded ((a, c) # inside) (dependencies st)\<rparr>"
    from "7.IH"(1) Some res c have g: "get n defs a st = Some (?s1, r)" by simp
    have c1: "currentlyComputingAtom ?s1 = Some c" using c by simp
    show ?thesis
    proof (cases r)
      case (Inl e)
      from "7.IH"(2)[OF g refl Inl c1] g Inl Some res show ?thesis
        by (cases "resolve_body n defs (atomPrimitiveValues st) c (h e)") auto
    next
      case (Inr v)
      from "7.IH"(3)[OF g refl Inr c1] g Inr Some res show ?thesis
        by (cases "resolve_body n defs (atomPrimitiveValues st) c (k v)") auto
    qed
  qed
qed

text \<open>
  Claim C7, as amended. The snapshot read of a source cell returns its stored value and
  leaves the whole state, the dependency graph included, as it was. The snapshot read of a
  derived cell runs its read function with tracking on: whether it returns or throws, the
  state it leaves is the state before with exactly the edges of the tracked reads made
  during this evaluation recorded in the graph, an edge from \<open>x\<close> to \<open>c\<close> for each call
  \<^verbatim>\<open>get(x)\<close> made by the read function of a derived cell \<open>c\<close> being evaluated (the cell
  itself, or a derived cell read on the way). So nothing but the graph changes, every
  edge of the graph before is in the graph after, and every edge added leads to a derived
  cell.
\<close>

theorem snapshot_adds_only_read_edges:
  "getSnapshot n defs a st =
     map_option (\<lambda>(r, reads). (st\<lparr>dependencies := recorded reads (dependencies st)\<rparr>, r))
       (resolve n defs (atomPrimitiveValues st) a) \<and>
   (is_primitive (defs a) \<longrightarrow>
      getSnapshot n defs a st
        = Some (st, Inr (case atomPrimitiveValues st a of None \<Rightarrow> Undefined | Some v \<Rightarrow> v))) \<and>
   (\<forall>st' r. getSnapshot n defs a st = Some (st', r) \<longrightarrow>
      st' = st\<lparr>dependencies := dependencies st'\<rparr> \<and> edges_added defs st st')"
proof (intro conjI impI allI)
  show "getSnapshot n defs a st =
     map_option (\<lambda>(r, reads). (st\<lparr>dependencies := recorded reads (dependencies st)\<rparr>, r))
       (resolve n defs (atomPrimitiveValues st) a)"
    unfolding getSnapshot_def by (rule read_resolve(2))
next
  assume "is_primitive (defs a)"
  then show "getSnapshot n defs a st
        = Some (st, Inr (case atomPrimitiveValues st a of None \<Rightarrow> Undefined | Some v \<Rightarrow> v))"
    unfolding getSnapshot_def by (cases "defs a") (simp_all add: read_primitive)
next
  fix st' r assume "getSnapshot n defs a st = Some (st', r)"
  then show "st' = st\<lparr>dependencies := dependencies st'\<rparr>"
    unfolding getSnapshot_def by (rule read_frame(2))
next
  fix st' r assume "getSnapshot n defs a st = Some (st', r)"
  then show "edges_added defs st st'"
    unfolding getSnapshot_def by (rule read_edges(2))
qed

text \<open>
  Claim C7 as stated fails: before the first snapshot of \<open>DoubledAtom\<close> the graph has no
  entry for \<open>CountAtom\<close>, after it \<open>DoubledAtom\<close> is a dependent of \<open>CountAtom\<close>.
\<close>

theorem snapshot_creates_edge:
  "dependencies app_start CountAtom = None \<and>
   map_option (\<lambda>(st', r). (dependencies st' CountAtom, r))
     (getSnapshot 2 app_atoms DoubledAtom app_start) = Some (Some [DoubledAtom], Inr (Val 0))"
  by (simp add: app_start_def atom_def initial_def getSnapshot_def track_def set_add_def
        on_number_def eval_nat_numeral)

lemma app_diamond_values:
  "atomPrimitiveValues app_diamond CountAtom = Some (Val 0)"
  "atomPrimitiveValues app_diamond CountAtom2 = Some (Val 0)"
  by (simp_all add: app_diamond_def app_start_def getSnapshot_def atom_def initial_def
        subscribe_def track_def set_add_def eval_nat_numeral on_number_def add_values_def)

text \<open>
  A source cell; and \<open>TripledAtom\<close>, read for the first time in the diamond state: its
  two tracked reads add the edge from \<open>DoubledAtom\<close> to \<open>TripledAtom\<close> (the edge from
  \<open>CountAtom\<close> to \<open>DoubledAtom\<close> is there already) and nothing else.
\<close>

theorem snapshot_adds_only_read_edges_witness:
  "is_primitive (app_atoms CountAtom) \<and>
   getSnapshot 0 app_atoms CountAtom app_diamond = Some (app_diamond, Inr (Val 0)) \<and>
   resolve 4 app_atoms (atomPrimitiveValues app_diamond) TripledAtom
     = Some (Inr (Val 0), [(DoubledAtom, TripledAtom), (CountAtom, DoubledAtom)]) \<and>
   getSnapshot 4 app_atoms TripledAtom app_diamond
     = Some (app_diamond\<lparr>dependencies :=
               record_edge CountAtom DoubledAtom
                 (record_edge DoubledAtom TripledAtom (dependencies app_diamond))\<rparr>,
             Inr (Val 0)) \<and>
   map (record_edge CountAtom DoubledAtom
          (record_edge DoubledAtom TripledAtom (dependencies app_diamond)))
     [CountAtom, DoubledAtom, PlusOneAtom, SumAtom, TripledAtom]
     = [Some [DoubledAtom, PlusOneAtom], Some [SumAtom, TripledAtom], Some [SumAtom], None, None]"
proof -
  have p: "is_primitive (app_atoms CountAtom)" by simp
  have res: "resolve 4 app_atoms (atomPrimitiveValues app_diamond) TripledAtom
     = Some (Inr (Val 0), [(DoubledAtom, TripledAtom), (CountAtom, DoubledAtom)])"
    by (simp add: eval_nat_numeral app_diamond_values on_number_def)
  note inst = snapshot_adds_only_read_edges[of _ app_atoms _ app_diamond]
  from inst[of 0 CountAtom] p
  have one: "getSnapshot 0 app_atoms CountAtom app_diamond = Some (app_diamond, Inr (Val 0))"
    by (simp add: app_diamond_values)
  from inst[of 4 TripledAtom, THEN conjunct1]
  have two: "getSnapshot 4 app_atoms TripledAtom app_diamond
     = Some (app_diamond\<lparr>dependencies :=
               record_edge CountAtom DoubledAtom
                 (record_edge DoubledAtom TripledAtom (dependencies app_diamond))\<rparr>,
             Inr (Val 0))"
    unfolding res by simp
  have three: "map (record_edge CountAtom DoubledAtom
          (record_edge DoubledAtom TripledAtom (dependencies app_diamond)))
     [CountAtom, DoubledAtom, PlusOneAtom, SumAtom, TripledAtom]
     = [Some [DoubledAtom, PlusOneAtom], Some [SumAtom, TripledAtom], Some [SumAtom], None, None]"
    by (simp add: record_edge_def set_add_def app_diamond_dependencies
          app_diamond_def app_start_def getSnapshot_def atom_def initial_def
          subscribe_def track_def eval_nat_numeral on_number_def add_values_def)
  from p one res two three show ?thesis by blast
qed

section \<open>What a write changes, and the reachable states\<close>

lemma update_frame:
  assumes "updateAtom n defs a v st = Some st'"
  shows "currentlyComputingAtom st' = currentlyComputingAtom st"
    and "dependencies st' = dependencies st"
    and "subscriptions st' = subscriptions st"
  using assms
  by (auto simp: updateAtom_def source_write_trace propagation_trace(1) split: atom.splits)

lemma write_handler_edges:
  "call_write n defs p st = Some (st', r) \<Longrightarrow> context_derived defs st
     \<Longrightarrow> currentlyComputingAtom st' = currentlyComputingAtom st \<and> edges_added defs st st'"
proof (induction n defs p st arbitrary: st' r rule: call_write.induct)
  case (1 n defs st)
  then show ?case by (simp add: edges_added_refl)
next
  case (2 n defs e st)
  then show ?case by (simp add: edges_added_refl)
next
  case (3 defs a k h st)
  then show ?case by simp
next
  case (4 n defs a k h st)
  from "4.prems" obtain s1 r1 where g: "get n defs a st = Some (s1, r1)"
    by (auto split: option.splits)
  note c1 = read_context(1)[OF g] and e1 = read_edges(1)[OF g "4.prems"(2)]
  from c1 "4.prems"(2) have d1: "context_derived defs s1"
    by (simp add: context_derived_def)
  show ?case
  proof (cases r1)
    case (Inl e)
    with g "4.prems" have "call_write n defs (h e) s1 = Some (st', r)" by simp
    from "4.IH"(1)[OF g refl Inl this d1] c1 e1 show ?thesis
      by (auto intro: edges_added_trans)
  next
    case (Inr v)
    with g "4.prems" have "call_write n defs (k v) s1 = Some (st', r)" by simp
    from "4.IH"(2)[OF g refl Inr this d1] c1 e1 show ?thesis
      by (auto intro: edges_added_trans)
  qed
next
  case (5 defs a v k st)
  then show ?case by simp
next
  case (6 n defs a v k st)
  from "6.prems" obtain s1 where u: "updateAtom n defs a v st = Some s1"
    and rest: "call_write n defs k s1 = Some (st', r)"
    by (auto split: option.splits)
  note f = update_frame[OF u]
  from f(1) "6.prems"(2) have d1: "context_derived defs s1"
    by (simp add: context_derived_def)
  from "6.IH"[OF u rest d1] f show ?case
    by (simp add: edges_added_def dependents_def)
qed

lemma dispatch_edges:
  assumes "(case defs a of
              Derived _ (Some wr) \<Rightarrow> call_write n defs (wr v) s1
            | Primitive _ \<Rightarrow>
                (case updateAtom n defs a v s1 of
                   None \<Rightarrow> None
                 | Some st2 \<Rightarrow> Some (st2, Inr ()))
            | Derived _ None \<Rightarrow> Some (s1, Inl CannotSetReadOnlyDerivedAtom)) = Some (st', r)"
    and "context_derived defs s1"
  shows "currentlyComputingAtom st' = currentlyComputingAtom s1 \<and> edges_added defs s1 st'"
proof (cases "defs a")
  case (Primitive v0)
  with assms(1) have "updateAtom n defs a v s1 = Some st'"
    by (auto split: option.splits)
  from update_frame[OF this] show ?thesis
    by (simp add: edges_added_def dependents_def)
next
  case (Derived rd wo)
  show ?thesis
  proof (cases wo)
    case None
    with Derived assms(1) show ?thesis by (simp add: edges_added_refl)
  next
    case (Some wr)
    with Derived assms(1) have "call_write n defs (wr v) s1 = Some (st', r)" by simp
    from write_handler_edges[OF this assms(2)] show ?thesis .
  qed
qed

lemma write_edges:
  assumes "setValue n defs a nextValue st = Some (st', r)" and "context_derived defs st"
  shows "currentlyComputingAtom st' = currentlyComputingAtom st \<and> edges_added defs st st'"
proof (cases nextValue)
  case (NewValue v)
  with assms(1) show ?thesis
    by (intro dispatch_edges[where a = a and n = n and v = v, OF _ assms(2)])
       (simp add: setValue_def)
next
  case (SetValueFn f)
  with assms(1) obtain s1 r1 where g: "getAtomValue n defs a st = Some (s1, r1)"
    by (auto simp: setValue_def split: option.splits)
  note c1 = read_context(2)[OF g] and e1 = read_edges(2)[OF g]
  from c1 assms(2) have d1: "context_derived defs s1"
    by (simp add: context_derived_def)
  show ?thesis
  proof (cases r1)
    case (Inl e)
    with SetValueFn g assms(1) have "st' = s1" by (simp add: setValue_def)
    with c1 e1 show ?thesis by simp
  next
    case (Inr prev)
    with SetValueFn g assms(1) have
      "currentlyComputingAtom st' = currentlyComputingAtom s1 \<and> edges_added defs s1 st'"
      by (intro dispatch_edges[where a = a and n = n and v = "f prev", OF _ d1])
         (simp add: setValue_def)
    with c1 e1 show ?thesis by (auto intro: edges_added_trans)
  qed
qed

lemma graph_derived_step:
  assumes "graph_derived defs st" and "currentlyComputingAtom st' = currentlyComputingAtom st"
    and "edges_added defs st st'"
  shows "graph_derived defs st'"
  using assms unfolding graph_derived_def edges_added_def context_derived_def by metis

lemma reachable_graph_derived: "reachable defs st \<Longrightarrow> graph_derived defs st"
proof (induction rule: reachable.induct)
  case r_initial
  show ?case by (simp add: graph_derived_def context_derived_def dependents_def initial_def)
next
  case (r_atom st configOrRead wr ref st')
  from r_atom(2) have "currentlyComputingAtom st' = currentlyComputingAtom st"
    "dependencies st' = dependencies st"
    by (auto simp: atom_def split: config.splits)
  with r_atom.IH show ?case
    by (simp add: graph_derived_def context_derived_def dependents_def)
next
  case (r_read st n a st' r)
  from r_read(2) have g: "getAtomValue n defs a st = Some (st', r)"
    by (simp add: getSnapshot_def)
  from graph_derived_step[OF r_read.IH read_context(2)[OF g] read_edges(2)[OF g]]
  show ?case .
next
  case (r_write st n a nextValue st' w)
  from r_write.IH have "context_derived defs st" by (simp add: graph_derived_def)
  from write_edges[OF r_write(2) this] r_write.IH show ?case
    by (auto intro: graph_derived_step)
next
  case (r_subscribe st a callback)
  then show ?case
    by (simp add: subscribe_def graph_derived_def context_derived_def dependents_def)
next
  case (r_unsubscribe st a callback)
  then show ?case
    by (simp add: unsubscribe_def graph_derived_def context_derived_def dependents_def
             split: option.splits)
qed

text \<open>
  Claim C8. In every state reachable by constructing atoms, reading, writing, subscribing
  and unsubscribing, every dependent recorded in the dependency graph is a derived cell:
  no source cell is in any dependent set.
\<close>

theorem dependents_are_derived:
  assumes "reachable defs st" and "dependencies st a = Some ds" and "d \<in> set ds"
  shows "is_derived (defs d) \<and> \<not> is_primitive (defs d)"
proof -
  from assms(2,3) have "d \<in> set (dependents st a)" by (simp add: dependents_def)
  with reachable_graph_derived[OF assms(1)] have "is_derived (defs d)"
    by (simp add: graph_derived_def)
  then show ?thesis by (cases "defs d") simp_all
qed

lemma reachable_app_start: "reachable app_atoms app_start"
proof -
  have "reachable app_atoms (initial :: (app_atom, nat, real) engine)" by (rule r_initial)
  then have "reachable app_atoms
      (snd (atom (ConfigValue (Val 0)) None CountAtom (initial :: (app_atom, nat, real) engine)))"
    by (rule r_atom[where configOrRead = "ConfigValue (Val 0)" and wr = None
                      and ref = CountAtom])
       (simp add: atom_def)
  then show ?thesis unfolding app_start_def
    by (rule r_atom[where configOrRead = "ConfigValue (Val 0)" and wr = None
                      and ref = CountAtom2])
       (simp add: atom_def)
qed

lemma reachable_app_diamond: "reachable app_atoms app_diamond"
proof -
  obtain st r where g: "getSnapshot 5 app_atoms SumAtom app_start = Some (st, r)"
    by (simp add: getSnapshot_def eval_nat_numeral read_primitive)
  from reachable_app_start g have "reachable app_atoms st" by (rule r_read)
  then have "reachable app_atoms (subscribe SumAtom 2 (subscribe SumAtom 1 st))"
    by (intro r_subscribe)
  with g show ?thesis by (simp add: app_diamond_def)
qed

text \<open>
  The diamond state is reached by two constructions, a snapshot and two subscriptions;
  the dependent of \<open>DoubledAtom\<close> in it is \<open>SumAtom\<close>, a derived cell.
\<close>

theorem dependents_are_derived_witness:
  "reachable app_atoms app_diamond \<and>
   dependencies app_diamond DoubledAtom = Some [SumAtom] \<and>
   is_derived (app_atoms SumAtom) \<and> \<not> is_primitive (app_atoms SumAtom)"
proof -
  have d: "dependencies app_diamond DoubledAtom = Some [SumAtom]"
    by (simp add: app_diamond_def app_start_def getSnapshot_def atom_def initial_def
        subscribe_def track_def set_add_def eval_nat_numeral on_number_def add_values_def)
  have m: "SumAtom \<in> set [SumAtom]" by simp
  from dependents_are_derived[OF reachable_app_diamond d m] reachable_app_diamond d
  show ?thesis by simp
qed

section \<open>Writing to a read-only derived cell\<close>

text \<open>
  Claim C3, as amended. A write to a derived cell without a write handler fails. With a
  plain value it raises the read-only-write error and the state is exactly the state
  before. With an updater the cell is read first, to hand its value to the updater: if
  that read throws, its error is the one raised, otherwise the read-only-write error is.
  In every case the value store, the observer registry and the computation context are as
  before and no callback has fired; the dependency graph keeps its edges and may have
  gained the edges that the read recorded.
\<close>

theorem read_only_write_rejected:
  assumes "defs D = Derived rd None"
  shows "setValue n defs D (NewValue v) st = Some (st, Inl CannotSetReadOnlyDerivedAtom) \<and>
         setValue n defs D (SetValueFn f) st =
           (case getSnapshot n defs D st of
              None \<Rightarrow> None
            | Some (st1, Inl e) \<Rightarrow> Some (st1, Inl e)
            | Some (st1, Inr prev) \<Rightarrow> Some (st1, Inl CannotSetReadOnlyDerivedAtom)) \<and>
         (\<forall>nextValue st' r. setValue n defs D nextValue st = Some (st', r) \<longrightarrow>
            (\<exists>e. r = Inl e) \<and> st' = st\<lparr>dependencies := dependencies st'\<rparr> \<and>
            edges_added defs st st')"
proof (intro conjI allI impI)
  show a: "setValue n defs D (NewValue v) st = Some (st, Inl CannotSetReadOnlyDerivedAtom)"
    for v using assms by (simp add: setValue_def)
  show b: "setValue n defs D (SetValueFn f) st =
           (case getSnapshot n defs D st of
              None \<Rightarrow> None
            | Some (st1, Inl e) \<Rightarrow> Some (st1, Inl e)
            | Some (st1, Inr prev) \<Rightarrow> Some (st1, Inl CannotSetReadOnlyDerivedAtom))"
    for f using assms
    by (simp add: setValue_def getSnapshot_def split: option.splits sum.splits)
  fix nextValue st' r
  assume w: "setValue n defs D nextValue st = Some (st', r)"
  have "(\<exists>e. r = Inl e) \<and> st' = st\<lparr>dependencies := dependencies st'\<rparr> \<and>
        edges_added defs st st'"
  proof (cases nextValue)
    case (NewValue v)
    with w a[of v] show ?thesis by (auto simp: edges_added_refl)
  next
    case (SetValueFn f)
    with w b[of f] obtain r1 where g: "getAtomValue n defs D st = Some (st', r1)"
      and "\<exists>e. r = Inl e"
      by (auto simp: getSnapshot_def split: option.splits sum.splits)
    with read_frame(2)[OF g] read_edges(2)[OF g] show ?thesis by auto
  qed
  then show "\<exists>e. r = Inl e" and "st' = st\<lparr>dependencies := dependencies st'\<rparr>"
    and "edges_added defs st st'" by simp_all
qed

lemma app_unmounted_fields:
  "dependencies app_unmounted CountAtom = Some [SwitchAtom]"
  "dependencies app_unmounted CountAtom2 = None"
  "atomPrimitiveValues app_unmounted CountAtom = Some (Val 1)"
  "atomPrimitiveValues app_unmounted CountAtom2 = Some (Val 0)"
  "subscriptions app_unmounted SwitchAtom = Some []"
  "currentlyComputingAtom app_unmounted = None"
  "fired app_unmounted = []"
  by (simp_all add: app_unmounted_def app_start_def getSnapshot_def atom_def initial_def
        subscribe_def unsubscribe_def set_delete_def track_def set_add_def eval_nat_numeral
        setValue_def updateAtom_def updatePrimitiveAtom_def notify_def)


text \<open>
  Claim C3 as stated fails for an updater. \<open>SwitchAtom\<close> was read when \<open>CountAtom\<close> was
  0, then \<open>CountAtom\<close> was set to 1; the write to \<open>SwitchAtom\<close> with the updater
  \<^verbatim>\<open>(prev) => prev\<close> raises the read-only-write error and leaves a dependency
  graph that has \<open>SwitchAtom\<close> as a dependent of \<open>CountAtom2\<close>, which had none.
\<close>

theorem updater_write_adds_edge:
  "dependencies app_unmounted CountAtom2 = None \<and>
   map_option (\<lambda>(st', r). (r, dependencies st' CountAtom2))
     (setValue 3 app_atoms SwitchAtom (SetValueFn (\<lambda>prev. prev)) app_unmounted)
     = Some (Inl CannotSetReadOnlyDerivedAtom, Some [SwitchAtom])"
  by (simp add: app_unmounted_fields setValue_def eval_nat_numeral read_primitive track_def
        set_add_def)

text \<open>The same cell: a plain value, and the updater, for what it leaves unchanged.\<close>

theorem read_only_write_rejected_witness:
  "app_atoms SwitchAtom
     = Derived (Get CountAtom
                 (\<lambda>x. if x = Val 0 then Return (Val 0) else Get CountAtom2 Return Throw) Throw)
         None \<and>
   setValue 0 app_atoms SwitchAtom (NewValue (Val 3)) app_unmounted
     = Some (app_unmounted, Inl CannotSetReadOnlyDerivedAtom) \<and>
   map_option (\<lambda>(st', r). (r, atomPrimitiveValues st' CountAtom, subscriptions st' SwitchAtom,
                              fired st', currentlyComputingAtom st'))
     (setValue 3 app_atoms SwitchAtom (SetValueFn (\<lambda>prev. prev)) app_unmounted)
     = Some (Inl CannotSetReadOnlyDerivedAtom, Some (Val 1), Some [], [], None)"
proof -
  have d: "app_atoms SwitchAtom
     = Derived (Get CountAtom
                 (\<lambda>x. if x = Val 0 then Return (Val 0) else Get CountAtom2 Return Throw) Throw)
         None" by simp
  note inst = read_only_write_rejected[where defs = app_atoms and D = SwitchAtom, OF d]
  from inst[of 0 "Val 3" app_unmounted] have one:
    "setValue 0 app_atoms SwitchAtom (NewValue (Val 3)) app_unmounted
       = Some (app_unmounted, Inl CannotSetReadOnlyDerivedAtom)" by blast
  obtain st' where w:
    "setValue 3 app_atoms SwitchAtom (SetValueFn (\<lambda>prev. prev)) app_unmounted
       = Some (st', Inl CannotSetReadOnlyDerivedAtom)"
    by (simp add: app_unmounted_fields setValue_def eval_nat_numeral read_primitive
          track_values)
  with inst[of 3 undefined app_unmounted] have "st' = app_unmounted\<lparr>dependencies := dependencies st'\<rparr>"
    by blast
  then have "atomPrimitiveValues st' = atomPrimitiveValues app_unmounted"
    "currentlyComputingAtom st' = currentlyComputingAtom app_unmounted"
    "subscriptions st' = subscriptions app_unmounted" "fired st' = fired app_unmounted"
    by (simp_all add: only_dependencies_fields)
  with d one w show ?thesis by (simp add: app_unmounted_fields)
qed

section \<open>The setter handed to write handlers\<close>

text \<open>
  Claim C2, as amended. A write to a derived cell with a write handler invokes the
  handler with the tracked accessor, the engine's \<^verbatim>\<open>updateAtom\<close> as setter and the new
  value. That setter is not the external write. On a source cell the two agree: the
  handler's write stores the value, notifies and propagates as an external write of that
  value does, and the handler carries on. On a derived cell without a write handler the
  handler's write does not fail: it fires the callbacks of that cell and of its
  dependents, and the handler carries on.
\<close>

theorem handler_setter_is_updateAtom:
  "(defs W = Derived rd (Some wr) \<longrightarrow>
      setValue n defs W (NewValue v) st = call_write n defs (wr v) st) \<and>
   (is_primitive (defs P) \<longrightarrow>
      call_write (Suc n) defs (WSet P v k) st =
        (case setValue n defs P (NewValue v) st of
           None \<Rightarrow> None
         | Some (st', Inl e) \<Rightarrow> Some (st', Inl e)
         | Some (st', Inr u) \<Rightarrow> call_write n defs k st')) \<and>
   (defs R = Derived rd' None \<longrightarrow>
      call_write (Suc n) defs (WSet R v k) st =
        (case notifications n (subscriptions st) (dependencies st) R of
           None \<Rightarrow> None
         | Some tr \<Rightarrow> call_write n defs k (st\<lparr>fired := fired st @ tr\<rparr>)))"
proof (intro conjI impI)
  assume "defs W = Derived rd (Some wr)"
  then show "setValue n defs W (NewValue v) st = call_write n defs (wr v) st"
    by (simp add: setValue_def)
next
  assume "is_primitive (defs P)"
  then show "call_write (Suc n) defs (WSet P v k) st =
        (case setValue n defs P (NewValue v) st of
           None \<Rightarrow> None
         | Some (st', Inl e) \<Rightarrow> Some (st', Inl e)
         | Some (st', Inr u) \<Rightarrow> call_write n defs k st')"
    by (cases "defs P") (simp_all add: setValue_def split: option.splits)
next
  assume "defs R = Derived rd' None"
  then show "call_write (Suc n) defs (WSet R v k) st =
        (case notifications n (subscriptions st) (dependencies st) R of
           None \<Rightarrow> None
         | Some tr \<Rightarrow> call_write n defs k (st\<lparr>fired := fired st @ tr\<rparr>))"
    by (simp add: updateAtom_def propagation_trace(1) split: option.splits)
qed

text \<open>
  Claim C2 as stated fails: the handler of \<open>ForwardingAtom\<close> writes to the read-only
  \<open>DoubledAtom\<close> and the write to \<open>ForwardingAtom\<close> returns normally, while an external
  write to \<open>DoubledAtom\<close> raises the read-only-write error.
\<close>

theorem handler_write_to_read_only_succeeds:
  "map_option snd (setValue 3 app_atoms ForwardingAtom (NewValue (Val 1)) app_diamond)
     = Some (Inr ()) \<and>
   map_option snd (setValue 3 app_atoms DoubledAtom (NewValue (Val 1)) app_diamond)
     = Some (Inl CannotSetReadOnlyDerivedAtom)"
  by (simp add: setValue_def updateAtom_def propagation_trace(1) eval_nat_numeral
        app_diamond_dependencies)


text \<open>
  \<open>ForwardingAtom\<close> again, whose write fires the two subscribers of \<open>SumAtom\<close>, and a
  handler's write to the source cell \<open>CountAtom\<close>.
\<close>

theorem handler_setter_is_updateAtom_witness:
  "app_atoms ForwardingAtom
     = Derived (Get DoubledAtom Return Throw) (Some (\<lambda>newValue. WSet DoubledAtom newValue Done)) \<and>
   app_atoms DoubledAtom
     = Derived (Get CountAtom (\<lambda>x. Return (on_number (\<lambda>i. i * 2) x)) Throw) None \<and>
   is_primitive (app_atoms CountAtom) \<and>
   map_option (\<lambda>(st', r). (r, fired st'))
     (setValue 3 app_atoms ForwardingAtom (NewValue (Val 1)) app_diamond)
     = Some (Inr (), [1, 2]) \<and>
   map_option (\<lambda>(st', r). (r, fired st', atomPrimitiveValues st' CountAtom))
     (call_write 3 app_atoms (WSet CountAtom (Val 5) Done) app_diamond)
     = map_option (\<lambda>(st', r). (r, fired st', atomPrimitiveValues st' CountAtom))
         (setValue 2 app_atoms CountAtom (NewValue (Val 5)) app_diamond)"
proof -
  have w: "app_atoms ForwardingAtom
     = Derived (Get DoubledAtom Return Throw) (Some (\<lambda>newValue. WSet DoubledAtom newValue Done))"
    by simp
  have r: "app_atoms DoubledAtom
     = Derived (Get CountAtom (\<lambda>x. Return (on_number (\<lambda>i. i * 2) x)) Throw) None"
    by simp
  have p: "is_primitive (app_atoms CountAtom)" by simp
  note inst = handler_setter_is_updateAtom[where defs = app_atoms and W = ForwardingAtom
      and P = CountAtom and R = DoubledAtom and st = app_diamond and k = Done
      and rd = "Get DoubledAtom Return Throw"
      and wr = "\<lambda>newValue. WSet DoubledAtom newValue Done"
      and rd' = "Get CountAtom (\<lambda>x. Return (on_number (\<lambda>i. i * 2) x)) Throw"]
  note c1 = inst[where n = 3 and v = "Val 1", THEN conjunct1, THEN mp, OF w]
  note c2 = inst[where n = 2 and v = "Val 5", THEN conjunct2, THEN conjunct1, THEN mp, OF p]
  note c3 = inst[where n = 2 and v = "Val 1", THEN conjunct2, THEN conjunct2, THEN mp, OF r]
  have three: "(3::nat) = Suc 2" by simp
  have tr: "notifications 2 (subscriptions app_diamond) (dependencies app_diamond) DoubledAtom
              = Some [1, 2]"
    by (simp add: eval_nat_numeral app_diamond_dependencies app_diamond_subscriptions)
  have one: "setValue 3 app_atoms ForwardingAtom (NewValue (Val 1)) app_diamond
               = Some (app_diamond\<lparr>fired := fired app_diamond @ [1, 2]\<rparr>, Inr ())"
    unfolding c1 unfolding three c3 tr by simp
  obtain st' where four:
    "setValue 2 app_atoms CountAtom (NewValue (Val 5)) app_diamond = Some (st', Inr ())"
    by (simp add: setValue_def updateAtom_def source_write_trace eval_nat_numeral
          diamond_trace[OF app_diamond_graph(1-4)])
  have two: "call_write 3 app_atoms (WSet CountAtom (Val 5) Done) app_diamond
               = setValue 2 app_atoms CountAtom (NewValue (Val 5)) app_diamond"
    unfolding three c2 four by simp
  from w r p one two show ?thesis
    by (simp add: app_diamond_graph)
qed

text \<open>
  Claim C9. For a derived cell \<open>T\<close>, with or without a write handler of its own, the
  setter handed to write handlers, called as \<^verbatim>\<open>set(T, v)\<close>, drops \<open>v\<close>: the state it
  leaves is the state it found with the callbacks of \<open>T\<close> and, recursively, of its
  dependents appended to the trace. Nothing is stored and the handler of \<open>T\<close> is not run
  (neither \<open>v\<close> nor the definition of \<open>T\<close> occurs on the right-hand sides); the calling
  handler then carries on.
\<close>

theorem setter_on_derived_only_notifies:
  assumes "is_derived (defs T)"
  shows "updateAtom n defs T v st =
           map_option (\<lambda>tr. st\<lparr>fired := fired st @ tr\<rparr>)
             (notifications n (subscriptions st) (dependencies st) T) \<and>
         call_write (Suc n) defs (WSet T v k) st =
           (case notifications n (subscriptions st) (dependencies st) T of
              None \<Rightarrow> None
            | Some tr \<Rightarrow> call_write n defs k (st\<lparr>fired := fired st @ tr\<rparr>))"
proof -
  from assms have u: "updateAtom n defs T v st = updateReadonlyDerivedAtom n T st"
    by (cases "defs T") (simp_all add: updateAtom_def)
  then show ?thesis
    by (simp add: propagation_trace(1) split: option.splits)
qed


text \<open>
  \<^verbatim>\<open>countAtom3WithWrite\<close> has a write handler, which would add to \<^verbatim>\<open>countAtom\<close>;
  \<^verbatim>\<open>set(countAtom3WithWrite, 9)\<close> only fires its subscriber.
\<close>

theorem setter_on_derived_only_notifies_witness:
  "is_derived (app_atoms CountAtom3WithWrite) \<and>
   atom_write (app_atoms CountAtom3WithWrite) \<noteq> None \<and>
   updateAtom 1 app_atoms CountAtom3WithWrite (Val 9)
       (subscribe CountAtom3WithWrite 3 app_diamond)
     = Some ((subscribe CountAtom3WithWrite 3 app_diamond)\<lparr>fired := [3]\<rparr>) \<and>
   call_write 2 app_atoms (WSet CountAtom3WithWrite (Val 9) Done)
       (subscribe CountAtom3WithWrite 3 app_diamond)
     = Some ((subscribe CountAtom3WithWrite 3 app_diamond)\<lparr>fired := [3]\<rparr>, Inr ())"
proof -
  let ?st = "subscribe CountAtom3WithWrite 3 app_diamond"
  have d: "is_derived (app_atoms CountAtom3WithWrite)" by simp
  have h: "atom_write (app_atoms CountAtom3WithWrite) \<noteq> None" by simp
  have tr: "notifications 1 (subscriptions ?st) (dependencies ?st) CountAtom3WithWrite
              = Some [3]"
    by (simp add: subscribe_def set_add_def app_diamond_def app_start_def getSnapshot_def
          atom_def initial_def track_def eval_nat_numeral on_number_def add_values_def)
  have f: "fired ?st = []" by (simp add: subscribe_def app_diamond_graph)
  have two: "(2::nat) = Suc 1" by simp
  note inst = setter_on_derived_only_notifies[where defs = app_atoms
      and T = CountAtom3WithWrite and n = 1 and v = "Val 9" and st = ?st and k = Done, OF d]
  from inst[THEN conjunct1] have a: "updateAtom 1 app_atoms CountAtom3WithWrite (Val 9) ?st
     = Some (?st\<lparr>fired := [3]\<rparr>)"
    unfolding tr by (simp add: f)
  from inst[THEN conjunct2] have b:
    "call_write 2 app_atoms (WSet CountAtom3WithWrite (Val 9) Done) ?st
       = Some (?st\<lparr>fired := [3]\<rparr>, Inr ())"
    unfolding tr two by (simp add: f)
  from d h a b show ?thesis by blast
qed

section \<open>The bound on the number of calls\<close>

text \<open>
  The bound only cuts a computation off: a read, a propagation or a write that ends
  within some bound ends with the same state and the same result within any larger one.
\<close>

lemma read_more_calls:
  "get n defs a st = Some x \<Longrightarrow> n \<le> m \<Longrightarrow> get m defs a st = Some x"
  "getAtomValue n defs a st = Some x \<Longrightarrow> n \<le> m \<Longrightarrow> getAtomValue m defs a st = Some x"
  "call_read n defs p st = Some x \<Longrightarrow> n \<le> m \<Longrightarrow> call_read m defs p st = Some x"
  for st :: "('a, 'c, 'v) engine"
proof (induction n defs a st and n defs a st and n defs p st arbitrary: x m and x m and x m
       rule: get_getAtomValue_call_read.induct)
  case (1 n defs a st)
  from "1.prems"(1) have "getAtomValue n defs a (track a st) = Some x" by simp
  from "1.IH"[OF this "1.prems"(2)] show ?case by simp
next
  case (2 defs a st)
  then show ?case by (cases "defs a") (simp_all add: read_primitive)
next
  case (3 n defs a st)
  from "3.prems"(2) obtain m' where m: "m = Suc m'" and le: "n \<le> m'"
    by (cases m) auto
  show ?case
  proof (cases "defs a")
    case (Primitive v)
    with "3.prems" show ?thesis by (simp add: read_primitive)
  next
    case (Derived rd wr)
    with "3.prems" obtain s1 r where
      run: "call_read n defs rd (st\<lparr>currentlyComputingAtom := Some a\<rparr>) = Some (s1, r)"
      and x: "x = (s1\<lparr>currentlyComputingAtom := currentlyComputingAtom st\<rparr>, r)"
      by (auto split: option.splits)
    from "3.IH"[OF Derived run le] Derived x m show ?thesis by simp
  qed
next
  case (4 n defs v st)
  then show ?case by simp
next
  case (5 n defs e st)
  then show ?case by simp
next
  case (6 defs a k h st)
  then show ?case by simp
next
  case (7 n defs a k h st)
  from "7.prems"(2) obtain m' where m: "m = Suc m'" and le: "n \<le> m'"
    by (cases m) auto
  from "7.prems" obtain s1 r1 where g: "get n defs a st = Some (s1, r1)"
    by (auto split: option.splits)
  note g' = "7.IH"(1)[OF g le]
  show ?case
  proof (cases r1)
    case (Inl e)
    with g "7.prems" have "call_read n defs (h e) s1 = Some x" by simp
    from "7.IH"(2)[OF g refl Inl this le] g' Inl m show ?thesis by simp
  next
    case (Inr v)
    with g "7.prems" have "call_read n defs (k v) s1 = Some x" by simp
    from "7.IH"(3)[OF g refl Inr this le] g' Inr m show ?thesis by simp
  qed
qed

lemma notifications_more_calls:
  "notifications n subs deps a = Some tr \<Longrightarrow> n \<le> m \<Longrightarrow> notifications m subs deps a = Some tr"
  "notifications_each n subs deps ds = Some tr \<Longrightarrow> n \<le> m
     \<Longrightarrow> notifications_each m subs deps ds = Some tr"
proof (induction n subs deps a and n subs deps ds arbitrary: tr m and tr m
       rule: notifications_notifications_each.induct)
  case (1 subs deps a)
  then show ?case by simp
next
  case (2 n subs deps a)
  from "2.prems"(2) obtain m' where m: "m = Suc m'" and le: "n \<le> m'"
    by (cases m) auto
  from "2.prems"(1) obtain below where
    b: "notifications_each n subs deps (case deps a of None \<Rightarrow> [] | Some ds \<Rightarrow> ds) = Some below"
    by (auto split: option.splits)
  from "2.IH"[OF b le] b "2.prems"(1) m show ?case by simp
next
  case (3 n subs deps)
  then show ?case by simp
next
  case (4 n subs deps d ds)
  from "4.prems"(1) obtain first others where
    f: "notifications n subs deps d = Some first"
    and os: "notifications_each n subs deps ds = Some others"
    by (auto split: option.splits)
  from "4.IH"(1)[OF f "4.prems"(2)] "4.IH"(2)[OF f os "4.prems"(2)] f os "4.prems"(1)
  show ?case by simp
qed


lemma update_more_calls:
  assumes "updateAtom n defs a v st = Some st'" and "n \<le> m"
  shows "updateAtom m defs a v st = Some st'"
proof (cases "defs a")
  case (Primitive v0)
  with assms(1) obtain below where
    "notifications_each n (subscriptions st) (dependencies st) (dependents st a) = Some below"
    and "st' = st\<lparr>atomPrimitiveValues := (atomPrimitiveValues st)(a \<mapsto> v),
                     fired := fired st @ callbacks st a @ below\<rparr>"
    by (auto simp: updateAtom_def source_write_trace)
  with notifications_more_calls(2)[OF this(1) assms(2)] Primitive show ?thesis
    by (simp add: updateAtom_def source_write_trace)
next
  case (Derived rd wr)
  with assms(1) obtain tr where
    "notifications n (subscriptions st) (dependencies st) a = Some tr"
    and "st' = st\<lparr>fired := fired st @ tr\<rparr>"
    by (auto simp: updateAtom_def propagation_trace(1))
  with notifications_more_calls(1)[OF this(1) assms(2)] Derived show ?thesis
    by (simp add: updateAtom_def propagation_trace(1))
qed

lemma handler_more_calls:
  "call_write n defs p st = Some x \<Longrightarrow> n \<le> m \<Longrightarrow> call_write m defs p st = Some x"
proof (induction n defs p st arbitrary: x m rule: call_write.induct)
  case (1 n defs st)
  then show ?case by simp
next
  case (2 n defs e st)
  then show ?case by simp
next
  case (3 defs a k h st)
  then show ?case by simp
next
  case (4 n defs a k h st)
  from "4.prems"(2) obtain m' where m: "m = Suc m'" and le: "n \<le> m'"
    by (cases m) auto
  from "4.prems" obtain s1 r1 where g: "get n defs a st = Some (s1, r1)"
    by (auto split: option.splits)
  note g' = read_more_calls(1)[OF g le]
  show ?case
  proof (cases r1)
    case (Inl e)
    with g "4.prems" have "call_write n defs (h e) s1 = Some x" by simp
    from "4.IH"(1)[OF g refl Inl this le] g' Inl m show ?thesis by simp
  next
    case (Inr v)
    with g "4.prems" have "call_write n defs (k v) s1 = Some x" by simp
    from "4.IH"(2)[OF g refl Inr this le] g' Inr m show ?thesis by simp
  qed
next
  case (5 defs a v k st)
  then show ?case by simp
next
  case (6 n defs a v k st)
  from "6.prems"(2) obtain m' where m: "m = Suc m'" and le: "n \<le> m'"
    by (cases m) auto
  from "6.prems" obtain s1 where u: "updateAtom n defs a v st = Some s1"
    and rest: "call_write n defs k s1 = Some x"
    by (auto split: option.splits)
  from "6.IH"[OF u rest le] update_more_calls[OF u le] m show ?case by simp
qed

lemma write_more_calls:
  assumes "setValue n defs a nextValue st = Some x" and "n \<le> m"
  shows "setValue m defs a nextValue st = Some x"
proof -
  have dispatch:
    "(case defs a of
        Derived _ (Some wr) \<Rightarrow> call_write m defs (wr v) s1
      | Primitive _ \<Rightarrow>
          (case updateAtom m defs a v s1 of
             None \<Rightarrow> None
           | Some st2 \<Rightarrow> Some (st2, Inr ()))
      | Derived _ None \<Rightarrow> Some (s1, Inl CannotSetReadOnlyDerivedAtom)) = Some x"
    if "(case defs a of
           Derived _ (Some wr) \<Rightarrow> call_write n defs (wr v) s1
         | Primitive _ \<Rightarrow>
             (case updateAtom n defs a v s1 of
                None \<Rightarrow> None
              | Some st2 \<Rightarrow> Some (st2, Inr ()))
         | Derived _ None \<Rightarrow> Some (s1, Inl CannotSetReadOnlyDerivedAtom)) = Some x"
    for v s1
    using that assms(2)
    by (auto split: atom.splits option.splits
             dest: handler_more_calls update_more_calls)
  show ?thesis
  proof (cases nextValue)
    case (NewValue v)
    with assms(1) dispatch[of v st] show ?thesis by (simp add: setValue_def)
  next
    case (SetValueFn f)
    with assms(1) obtain s1 r1 where g: "getAtomValue n defs a st = Some (s1, r1)"
      by (auto simp: setValue_def split: option.splits)
    note g' = read_more_calls(2)[OF g assms(2)]
    show ?thesis
    proof (cases r1)
      case (Inl e)
      with SetValueFn g g' assms(1) show ?thesis by (simp add: setValue_def)
    next
      case (Inr prev)
      with SetValueFn g g' assms(1) dispatch[of "f prev" s1] show ?thesis
        by (simp add: setValue_def)
    qed
  qed
qed

end
